theory Spec2Isabelle
  imports Main "HOL-Library.Multiset"
begin

section \<open>Strings and paths\<close>

text \<open>
  The program is main.go of pooshit. Paths are Go strings, modelled as \<open>string\<close> (a list
  of bytes). The functions of this section are the ones main.go calls from the Go
  packages \<open>strings\<close> and \<open>path/filepath\<close>, for the Unix path separator.
\<close>

definition Separator :: char where
  "Separator = CHR ''/''"

definition backslash :: char where
  "backslash = CHR 0x5C"

definition HasPrefix :: "string \<Rightarrow> string \<Rightarrow> bool" where
  "HasPrefix s p = (take (length p) s = p)"

definition TrimPrefix :: "string \<Rightarrow> string \<Rightarrow> string" where
  "TrimPrefix s p = (if HasPrefix s p then drop (length p) s else s)"

definition HasSuffix :: "string \<Rightarrow> string \<Rightarrow> bool" where
  "HasSuffix s p = (length p \<le> length s \<and> drop (length s - length p) s = p)"

definition TrimSuffix :: "string \<Rightarrow> string \<Rightarrow> string" where
  "TrimSuffix s p = (if HasSuffix s p then take (length s - length p) s else s)"

fun Contains :: "string \<Rightarrow> string \<Rightarrow> bool" where
  "Contains [] sub = (sub = [])"
| "Contains (c # s) sub = (HasPrefix (c # s) sub \<or> Contains s sub)"

text \<open>\<open>strings.Split\<close> for a separator of one byte; the empty string splits into one
  empty part.\<close>

fun Split :: "string \<Rightarrow> char \<Rightarrow> string list" where
  "Split [] sep = [[]]"
| "Split (c # s) sep =
     (if c = sep then [] # Split s sep
      else (case Split s sep of [] \<Rightarrow> [[c]] | h # t \<Rightarrow> (c # h) # t))"

text \<open>\<open>filepath.ToSlash\<close> replaces the separator by a slash: the identity where the
  separator is the slash.\<close>

definition ToSlash :: "string \<Rightarrow> string" where
  "ToSlash p = p"

text \<open>\<open>filepath.Base\<close>: the last element of the path, after the trailing slashes are
  removed; "." for the empty path and "/" for a path of slashes only.\<close>

definition Base :: "string \<Rightarrow> string" where
  "Base path =
     (if path = [] then ''.''
      else let stripped = rev (dropWhile (\<lambda>c. c = Separator) (rev path));
               lastElem = rev (takeWhile (\<lambda>c. c \<noteq> Separator) (rev stripped))
           in if lastElem = [] then [Separator] else lastElem)"

text \<open>
  \<open>filepath.Clean\<close>: the shortest path that names the same file. Empty elements and
  "." elements disappear; a ".." element removes the element before it, is dropped at
  the root, and stays where the path is relative and nothing is left to remove; the
  empty result is ".". \<open>cleanStep\<close> handles one element of the path, with the elements
  kept so far in reverse order.
\<close>

fun cleanStep :: "bool \<Rightarrow> string list \<Rightarrow> string \<Rightarrow> string list" where
  "cleanStep rooted stack part =
     (if part = [] \<or> part = ''.'' then stack
      else if part = ''..'' then
        (case stack of
           [] \<Rightarrow> if rooted then [] else [''..'']
         | el # rest \<Rightarrow> if el = ''..'' then ''..'' # stack else rest)
      else part # stack)"

declare cleanStep.simps [simp del]

fun joinParts :: "string list \<Rightarrow> string" where
  "joinParts [] = []"
| "joinParts [p] = p"
| "joinParts (p # q # ps) = p @ Separator # joinParts (q # ps)"

definition Clean :: "string \<Rightarrow> string" where
  "Clean path =
     (if path = [] then ''.''
      else let rooted = (hd path = Separator);
               parts = rev (foldl (cleanStep rooted) [] (Split path Separator));
               out = (if rooted then [Separator] else []) @ joinParts parts
           in if out = [] then ''.'' else out)"

text \<open>\<open>filepath.Join\<close> of two elements: the elements from the first non-empty one on,
  joined by the separator and cleaned; the empty string where both are empty.\<close>

definition Join :: "string \<Rightarrow> string \<Rightarrow> string" where
  "Join dir rel =
     (if dir \<noteq> [] then Clean (dir @ Separator # rel)
      else if rel \<noteq> [] then Clean rel
      else [])"


section \<open>filepath.Match\<close>

text \<open>
  \<open>matchPattern\<close> hands every pattern with a star to \<open>filepath.Match\<close> and drops its
  error, so a malformed pattern matches nothing. The model follows the library's
  algorithm chunk by chunk: \<open>scanChunk\<close>, \<open>matchChunk\<close>, \<open>getEsc\<close>. A result \<open>None\<close> is
  \<open>ErrBadPattern\<close>. A question mark and a character class consume one UTF-8 sequence of
  the name, decoded as \<open>utf8.DecodeRuneInString\<close> does; a literal of the pattern is
  compared with one byte.
\<close>

fun scanLen :: "string \<Rightarrow> bool \<Rightarrow> nat" where
  "scanLen [] inrange = 0"
| "scanLen (c # cs) inrange =
     (if c = backslash then (case cs of [] \<Rightarrow> 1 | d # ds \<Rightarrow> 2 + scanLen ds inrange)
      else if c = CHR ''['' then 1 + scanLen cs True
      else if c = CHR '']'' then 1 + scanLen cs False
      else if c = CHR ''*'' \<and> \<not> inrange then 0
      else 1 + scanLen cs inrange)"

definition scanChunk :: "string \<Rightarrow> bool \<times> string \<times> string" where
  "scanChunk pattern =
     (let star = (pattern \<noteq> [] \<and> hd pattern = CHR ''*'');
          p = dropWhile (\<lambda>c. c = CHR ''*'') pattern;
          i = scanLen p False
      in (star, take i p, drop i p))"

text \<open>\<open>utf8.DecodeRuneInString\<close>: the code point at the head of the string and the
  number of bytes it takes. A byte that starts no well-formed sequence decodes to
  \<open>RuneError\<close> of width 1, the empty string to \<open>RuneError\<close> of width 0. The first byte
  fixes the length of the sequence and the bounds of the second byte (the table
  \<open>first\<close> and \<open>acceptRanges\<close> of the library); every later byte is a continuation byte.\<close>

type_synonym rune = nat

definition RuneError :: rune where
  "RuneError = 0xFFFD"

definition byte :: "char \<Rightarrow> nat" where
  "byte c = of_char c"

definition DecodeRuneInString :: "string \<Rightarrow> rune \<times> nat" where
  "DecodeRuneInString s =
     (if s = [] then (RuneError, 0)
      else
        let s0 = byte (hd s) in
        if s0 < 0x80 then (s0, 1)
        else if s0 < 0xC2 \<or> 0xF4 < s0 then (RuneError, 1)
        else
          let sz = (if s0 < 0xE0 then 2 else if s0 < 0xF0 then 3 else 4) :: nat;
              lo = (if s0 = 0xE0 then 0xA0 else if s0 = 0xF0 then 0x90 else 0x80) :: nat;
              hi = (if s0 = 0xED then 0x9F else if s0 = 0xF4 then 0x8F else 0xBF) :: nat
          in if length s < sz then (RuneError, 1)
             else
               let s1 = byte (s ! 1) in
               if s1 < lo \<or> hi < s1 then (RuneError, 1)
               else if sz \<le> 2 then ((s0 mod 0x20) * 0x40 + s1 mod 0x40, 2)
               else
                 let s2 = byte (s ! 2) in
                 if s2 < 0x80 \<or> 0xBF < s2 then (RuneError, 1)
                 else if sz \<le> 3 then
                   ((s0 mod 0x10) * 0x1000 + (s1 mod 0x40) * 0x40 + s2 mod 0x40, 3)
                 else
                   let s3 = byte (s ! 3) in
                   if s3 < 0x80 \<or> 0xBF < s3 then (RuneError, 1)
                   else ((s0 mod 8) * 0x40000 + (s1 mod 0x40) * 0x1000
                           + (s2 mod 0x40) * 0x40 + s3 mod 0x40, 4))"

lemma DecodeRuneInString_width:
  "s \<noteq> [] \<Longrightarrow> 0 < snd (DecodeRuneInString s) \<and> snd (DecodeRuneInString s) \<le> length s"
proof -
  assume ne: "s \<noteq> []"
  have one: "Suc 0 \<le> length s" using ne by (cases s) simp_all
  show ?thesis
    using ne one by (auto simp add: DecodeRuneInString_def Let_def)
qed

lemma drop_rune_shorter:
  "s \<noteq> [] \<Longrightarrow> length s - snd (DecodeRuneInString s) < length s"
  using DecodeRuneInString_width [of s] by simp

text \<open>\<open>getEsc\<close>: the code point at the head of a character class, after an optional
  backslash. A byte that is no UTF-8 sequence, and a class that ends here, are
  malformed.\<close>

definition getEsc :: "string \<Rightarrow> (rune \<times> string) option" where
  "getEsc chunk =
     (if chunk = [] \<or> hd chunk = CHR ''-'' \<or> hd chunk = CHR '']'' then None
      else let chunk1 = (if hd chunk = backslash then tl chunk else chunk)
           in if chunk1 = [] then None
              else
                let (r, n) = DecodeRuneInString chunk1;
                    nchunk = drop n chunk1
                in if (r = RuneError \<and> n = 1) \<or> nchunk = [] then None
                   else Some (r, nchunk))"

definition inRange :: "rune \<Rightarrow> rune \<Rightarrow> rune \<Rightarrow> bool" where
  "inRange lo r hi = (lo \<le> r \<and> r \<le> hi)"

lemma getEsc_shorter: "getEsc chunk = Some (r, rest) \<Longrightarrow> length rest < length chunk"
proof -
  assume g: "getEsc chunk = Some (r, rest)"
  define chunk1 where "chunk1 = (if hd chunk = backslash then tl chunk else chunk)"
  from g have ne: "chunk1 \<noteq> []" and rest: "rest = drop (snd (DecodeRuneInString chunk1)) chunk1"
    by (auto simp: getEsc_def Let_def chunk1_def split: if_splits prod.splits)
  from ne have "length rest < length chunk1"
    unfolding rest using drop_rune_shorter [of chunk1] by simp
  moreover have "length chunk1 \<le> length chunk" by (simp add: chunk1_def)
  ultimately show ?thesis by simp
qed

text \<open>The loop of \<open>matchChunk\<close> that parses the ranges of a character class up to its
  closing bracket; \<open>r\<close> is the code point of the name under test.\<close>

function classRanges :: "string \<Rightarrow> rune \<Rightarrow> nat \<Rightarrow> bool \<Rightarrow> (bool \<times> string) option" where
  "classRanges chunk r nrange match =
     (if chunk \<noteq> [] \<and> hd chunk = CHR '']'' \<and> 0 < nrange then Some (match, tl chunk)
      else (case getEsc chunk of
              None \<Rightarrow> None
            | Some (lo, chunk1) \<Rightarrow>
                if hd chunk1 = CHR ''-'' then
                  (case getEsc (tl chunk1) of
                     None \<Rightarrow> None
                   | Some (hi, chunk2) \<Rightarrow>
                       classRanges chunk2 r (nrange + 1) (match \<or> inRange lo r hi))
                else classRanges chunk1 r (nrange + 1) (match \<or> inRange lo r lo)))"
  by pat_completeness auto
termination
proof (relation "measure (\<lambda>(chunk, r, nrange, match). length chunk)")
  show "wf (measure (\<lambda>(chunk, r, nrange, match). length chunk))" by simp
next
  fix chunk :: string and r :: rune and nrange :: nat and match :: bool
    and x2 lo chunk1 x2a hi chunk2
  assume g1: "getEsc chunk = Some x2" "(lo, chunk1) = x2"
    and g2: "getEsc (tl chunk1) = Some x2a" "(hi, chunk2) = x2a"
  from g1 have "length chunk1 < length chunk" by (auto dest: getEsc_shorter)
  moreover from g2 have "length chunk2 < length (tl chunk1)" by (auto dest: getEsc_shorter)
  ultimately show "((chunk2, r, nrange + 1, match \<or> inRange lo r hi), chunk, r, nrange, match)
      \<in> measure (\<lambda>(chunk, r, nrange, match). length chunk)" by simp
next
  fix chunk :: string and r :: rune and nrange :: nat and match :: bool
    and x2 lo chunk1
  assume g1: "getEsc chunk = Some x2" "(lo, chunk1) = x2"
  from g1 have "length chunk1 < length chunk" by (auto dest: getEsc_shorter)
  then show "((chunk1, r, nrange + 1, match \<or> inRange lo r lo), chunk, r, nrange, match)
      \<in> measure (\<lambda>(chunk, r, nrange, match). length chunk)" by simp
qed

declare classRanges.simps [simp del]

lemma classRanges_shorter:
  "classRanges chunk r nrange match = Some (m, rest) \<Longrightarrow> length rest < length chunk"
proof (induction chunk r nrange match rule: classRanges.induct)
  case (1 chunk r nrange match)
  show ?case
  proof (cases "chunk \<noteq> [] \<and> hd chunk = CHR '']'' \<and> 0 < nrange")
    case True
    with "1.prems" show ?thesis
      by (subst (asm) classRanges.simps) (cases chunk; auto)
  next
    case False
    from False "1.prems" obtain lo chunk1 where g1: "getEsc chunk = Some (lo, chunk1)"
      by (subst (asm) classRanges.simps) (auto split: option.splits)
    have l1: "length chunk1 < length chunk" using g1 by (rule getEsc_shorter)
    show ?thesis
    proof (cases "hd chunk1 = CHR ''-''")
      case dash: True
      from False "1.prems" g1 dash obtain hi chunk2
        where g2: "getEsc (tl chunk1) = Some (hi, chunk2)"
        by (subst (asm) classRanges.simps) (auto split: option.splits)
      have "length chunk2 < length (tl chunk1)" using g2 by (rule getEsc_shorter)
      then have l2: "length chunk2 < length chunk" using l1 by simp
      from False "1.prems" g1 dash g2
      have "classRanges chunk2 r (nrange + 1) (match \<or> inRange lo r hi) = Some (m, rest)"
        by (subst (asm) classRanges.simps) (auto split: if_splits)
      with "1.IH"(1)[OF False g1 refl dash g2 refl] l2 show ?thesis by simp
    next
      case nodash: False
      from False "1.prems" g1 nodash
      have "classRanges chunk1 r (nrange + 1) (match \<or> inRange lo r lo) = Some (m, rest)"
        by (subst (asm) classRanges.simps) (auto split: if_splits)
      with "1.IH"(2)[OF False g1 refl nodash] l1 show ?thesis by simp
    qed
  qed
qed

lemma tl_shorter: "xs \<noteq> [] \<Longrightarrow> length xs - Suc 0 < length xs"
  by (cases xs) auto

lemma tl_tl_shorter: "xs \<noteq> [] \<Longrightarrow> length xs - Suc (Suc 0) < length xs"
  by (cases xs) auto

text \<open>\<open>matchChunk\<close>: the chunk has no star outside a class. Once the match has failed
  the loop goes on over the chunk, to find a malformed pattern, and reads the name no
  more. A class and a question mark take one code point off the name (\<open>sRune\<close>), a
  literal one byte (\<open>sByte\<close>). The result is the rest of the name and whether the chunk
  matched.\<close>

function matchChunk :: "string \<Rightarrow> string \<Rightarrow> bool \<Rightarrow> (string \<times> bool) option" where
  "matchChunk chunk s failed0 =
     (if chunk = [] then (if failed0 then Some ([], False) else Some (s, True))
      else
        let failed = (failed0 \<or> s = []);
            sRune = (if failed then s else drop (snd (DecodeRuneInString s)) s);
            sByte = (if failed then s else tl s)
        in if hd chunk = CHR ''['' then
             (let r = (if failed then 0 else fst (DecodeRuneInString s));
                  negated = (tl chunk \<noteq> [] \<and> hd (tl chunk) = CHR ''^'');
                  chunk2 = (if negated then tl (tl chunk) else tl chunk)
              in case classRanges chunk2 r 0 False of
                   None \<Rightarrow> None
                 | Some (match, chunk3) \<Rightarrow>
                     matchChunk chunk3 sRune (failed \<or> match = negated))
           else if hd chunk = CHR ''?'' then
             matchChunk (tl chunk) sRune (failed \<or> hd s = Separator)
           else if hd chunk = backslash then
             (if tl chunk = [] then None
              else matchChunk (tl (tl chunk)) sByte (failed \<or> hd (tl chunk) \<noteq> hd s))
           else matchChunk (tl chunk) sByte (failed \<or> hd chunk \<noteq> hd s))"
  by pat_completeness auto
termination
  by (relation "measure (\<lambda>(chunk, s, failed0). length chunk)")
     (auto dest!: classRanges_shorter simp: tl_shorter tl_tl_shorter split: if_splits)

declare matchChunk.simps [simp del]

text \<open>The loop of \<open>Match\<close> after a star: skip one more byte of the name at a time, never
  a separator, until the chunk matches (and, for the last chunk, uses the name up).\<close>

fun starSkip :: "string \<Rightarrow> bool \<Rightarrow> string \<Rightarrow> string option" where
  "starSkip chunk lastChunk [] = None"
| "starSkip chunk lastChunk (c # cs) =
     (if c = Separator then None
      else (case matchChunk chunk cs False of
              None \<Rightarrow> None
            | Some (t, ok) \<Rightarrow>
                if ok then (if lastChunk \<and> t \<noteq> [] then starSkip chunk lastChunk cs else Some t)
                else starSkip chunk lastChunk cs))"

lemma scanLen_pos: "p \<noteq> [] \<Longrightarrow> hd p \<noteq> CHR ''*'' \<Longrightarrow> 0 < scanLen p False"
  by (cases p) (auto split: list.splits)

lemma scanChunk_shorter:
  assumes "pattern \<noteq> []" and "scanChunk pattern = (star, chunk, rest)"
  shows "length rest < length pattern"
proof (cases "hd pattern = CHR ''*''")
  case True
  with assms(1) have "length (dropWhile (\<lambda>c. c = CHR ''*'') pattern) < length pattern"
    by (cases pattern) (auto simp: le_imp_less_Suc length_dropWhile_le)
  with assms(2) show ?thesis by (auto simp: scanChunk_def Let_def)
next
  case False
  with assms(1) have p: "dropWhile (\<lambda>c. c = CHR ''*'') pattern = pattern"
    by (cases pattern) auto
  from assms(1) False have "0 < scanLen pattern False" by (rule scanLen_pos)
  with assms p show ?thesis by (auto simp: scanChunk_def Let_def)
qed

function Match :: "string \<Rightarrow> string \<Rightarrow> bool" where
  "Match pattern name =
     (if pattern = [] then name = []
      else (case scanChunk pattern of
        (star, chunk, rest) \<Rightarrow>
          if star \<and> chunk = [] then Separator \<notin> set name
          else (case matchChunk chunk name False of
                  None \<Rightarrow> False
                | Some (t, ok) \<Rightarrow>
                    if ok \<and> (t = [] \<or> rest \<noteq> []) then Match rest t
                    else if star then
                      (case starSkip chunk (rest = []) name of
                         None \<Rightarrow> False
                       | Some t' \<Rightarrow> Match rest t')
                    else False)))"
  by pat_completeness auto
termination
  by (relation "measure (\<lambda>(pattern, name). length pattern)")
     (auto dest: scanChunk_shorter[OF _ sym])

declare Match.simps [simp del]

section \<open>Ignore patterns\<close>

record fileInfo =
  IsDir :: bool
  Size :: int
  ModTime :: int

definition matchPattern :: "string \<Rightarrow> string \<Rightarrow> bool" where
  "matchPattern str pattern =
     (if Contains pattern ''*'' then Match pattern str else str = pattern)"

text \<open>The inner loop of \<open>shouldIgnore\<close> over the parts of the path.\<close>

fun anyPartMatches :: "string list \<Rightarrow> string \<Rightarrow> bool" where
  "anyPartMatches [] pattern = False"
| "anyPartMatches (part # parts) pattern =
     (if part = pattern \<or> matchPattern part pattern then True
      else anyPartMatches parts pattern)"

text \<open>The body of the loop of \<open>shouldIgnore\<close> for one pattern of the configuration:
  \<open>True\<close> where the body returns true, \<open>False\<close> where the loop goes on to the next
  pattern. \<open>cleanPattern\<close> is the clean-up at the head of the body, which removes a
  leading slash and then a leading "./".\<close>

definition cleanPattern :: "string \<Rightarrow> string" where
  "cleanPattern pattern = TrimPrefix (TrimPrefix pattern ''/'') ''./''"

definition patternIgnores :: "string \<Rightarrow> string \<Rightarrow> fileInfo \<Rightarrow> bool" where
  "patternIgnores pattern0 relPath info =
     (let baseName = Base relPath;
          relPathSlash = ToSlash relPath;
          pattern1 = cleanPattern pattern0;
          isDirectoryPattern = HasSuffix pattern1 ''/'';
          pattern = (if isDirectoryPattern then TrimSuffix pattern1 ''/'' else pattern1)
      in if (isDirectoryPattern \<or> \<not> Contains pattern ''*'') \<and>
            IsDir info \<and> (baseName = pattern \<or> matchPattern baseName pattern)
         then True
         else if (isDirectoryPattern \<or> \<not> Contains pattern ''*'') \<and>
                 anyPartMatches (Split relPathSlash CHR ''/'') pattern
         then True
         else if Contains pattern ''*'' \<and> matchPattern baseName pattern
         then True
         else False)"

fun shouldIgnore :: "string list \<Rightarrow> string \<Rightarrow> fileInfo \<Rightarrow> bool" where
  "shouldIgnore [] relPath info = False"
| "shouldIgnore (pattern # patterns) relPath info =
     (if patternIgnores pattern relPath info then True
      else shouldIgnore patterns relPath info)"

section \<open>Trees, endpoints and the configuration\<close>

text \<open>
  A directory tree, local or remote, as the walkers read it: a file with its size and
  modification time (nanoseconds), a directory with the outcome of listing it (\<open>True\<close>
  where the listing succeeds) and its entries in the order of the listing, and an entry
  whose \<open>lstat\<close> fails.
\<close>

datatype node =
    File string int int
  | Dir string bool "node list"
  | Gone string

fun nodeName :: "node \<Rightarrow> string" where
  "nodeName (File n sz mt) = n"
| "nodeName (Dir n listed entries) = n"
| "nodeName (Gone n) = n"

text \<open>The \<open>os.FileInfo\<close> of an entry. The program reads the size and the time of files
  only; the info of an entry whose \<open>lstat\<close> failed is nil and is never read.\<close>

fun lstatFails :: "node \<Rightarrow> bool" where
  "lstatFails (File n sz mt) = False"
| "lstatFails (Dir n listed entries) = False"
| "lstatFails (Gone n) = True"

fun nodeInfo :: "node \<Rightarrow> fileInfo" where
  "nodeInfo (File n sz mt) = \<lparr>IsDir = False, Size = sz, ModTime = mt\<rparr>"
| "nodeInfo (Dir n listed entries) = \<lparr>IsDir = True, Size = 0, ModTime = 0\<rparr>"
| "nodeInfo (Gone n) = \<lparr>IsDir = False, Size = 0, ModTime = 0\<rparr>"

text \<open>
  A tree as a file system holds it: the name of every entry is not empty, has no
  separator and is neither "." nor "..", and the names of the entries of one directory
  are pairwise distinct. The name of the root itself does not matter.
\<close>

definition validName :: "string \<Rightarrow> bool" where
  "validName n = (n \<noteq> [] \<and> Separator \<notin> set n \<and> n \<noteq> ''.'' \<and> n \<noteq> ''..'')"

fun validTree :: "node \<Rightarrow> bool"
and validEntries :: "node list \<Rightarrow> bool"
where
  "validTree (File n sz mt) = True"
| "validTree (Gone n) = True"
| "validTree (Dir n listed entries) = validEntries entries"
| "validEntries [] = True"
| "validEntries (entry # entries) =
     (validName (nodeName entry) \<and> nodeName entry \<notin> set (map nodeName entries) \<and>
      validTree entry \<and> validEntries entries)"

record Config =
  RemoteServer :: string
  SSHUsername :: string
  SSHPassword :: string
  RemoteFolder :: string
  LocalFolder :: string
  DockerImageName :: string
  DockerBuildArgs :: string
  DockerRunArgs :: string
  IgnorePatterns :: "string list"

text \<open>The anonymous struct of \<open>filesToSync\<close> and \<open>filesToPull\<close>.\<close>

record syncItem =
  localPath :: string
  remotePath :: string
  relPath :: string
  info :: fileInfo

text \<open>What the scan of phase 1 accumulates: the files to compare, the count of ignored
  entries, and the directories created at the destination, in order.\<close>

record scan =
  files :: "syncItem list"
  ignored :: nat
  mkdirs :: "string list"

text \<open>The destination as phase 2 sees it: the answer of \<open>Stat\<close> for each path (\<open>None\<close>
  where \<open>Stat\<close> returns an error).\<close>

type_synonym fsys = "string \<Rightarrow> fileInfo option"

text \<open>
  The collaborators of one run: the remote home directory (\<open>None\<close> where the command
  that asks for it fails), which transfers fail, how many bytes a transfer that succeeds
  copies from the source file at a path (what opening and reading the path yields: for
  a symbolic link the bytes of its target, not the size \<open>lstat\<close> reports), the
  modification time the destination gives a file written now, and whether the local
  root can be created.
\<close>

record env =
  remoteHome :: "string option"
  uploadFails :: "string \<Rightarrow> bool"
  downloadFails :: "string \<Rightarrow> bool"
  bytesCopied :: "string \<Rightarrow> int"
  writeTime :: "string \<Rightarrow> int"
  localMkdirFails :: bool

datatype error =
    LocalFolderInaccessible
  | LocalFolderNotDirectory
  | RemoteHomeFailed
  | LocalMkdirFailed
  | ScanFailed
  | UploadFailed string
  | DownloadFailed string
  | BuildFailed
  | RunFailed

record report =
  checked :: nat
  transferred :: nat
  skipped :: nat
  ignoredCount :: nat

text \<open>The path of an entry relative to the root of the walk (\<open>filepath.Rel\<close> of the
  root and the entry's path): "." for the root itself.\<close>

definition childPath :: "string \<Rightarrow> string \<Rightarrow> string" where
  "childPath parent name = (if parent = ''.'' then name else parent @ Separator # name)"

text \<open>The home-directory shorthand of the remote folder, as both directions resolve
  it.\<close>

definition expandTilde :: "env \<Rightarrow> string \<Rightarrow> error + string" where
  "expandTilde e folder =
     (if HasPrefix folder ''~/'' then
        (case remoteHome e of
           None \<Rightarrow> Inl RemoteHomeFailed
         | Some homeDir \<Rightarrow> Inr (Join homeDir (drop 2 folder)))
      else Inr folder)"

section \<open>Change detection\<close>

definition Second :: int where
  "Second = 1000000000"

definition After :: "int \<Rightarrow> int \<Rightarrow> bool" where
  "After t u = (u < t)"

text \<open>The check at the head of both transfer loops: \<open>needsUpdate\<close> starts true and
  becomes false only where \<open>Stat\<close> succeeded, the sizes are equal and the destination's
  time is after the source's time less one second.\<close>

definition needsUpdate :: "fileInfo \<Rightarrow> fileInfo option \<Rightarrow> bool" where
  "needsUpdate src dst =
     (case dst of
        None \<Rightarrow> True
      | Some dstInfo \<Rightarrow>
          if Size dstInfo = Size src \<and> After (ModTime dstInfo) (ModTime src + (- Second))
          then False else True)"

section \<open>Push: SyncFiles\<close>

datatype walkErr = SkipDir | ReadError string

text \<open>
  \<open>filepath.Walk\<close>, as the Go library has it today. A file is handed to the callback;
  a directory is listed first and then handed to the callback with the listing's error,
  and its entries are walked only when both the listing and the callback succeeded; an
  entry whose \<open>lstat\<close> fails is handed to the callback with that error. \<open>SkipDir\<close> from
  a directory skips that directory and the walk goes on; any other error ends the walk.
  The walker hands the callback the path of the entry, and the callback takes the path
  relative to the root at once; the model carries this relative path.
\<close>

fun walk :: "(string \<Rightarrow> fileInfo \<Rightarrow> walkErr option \<Rightarrow> 's \<Rightarrow> walkErr option \<times> 's)
               \<Rightarrow> string \<Rightarrow> node \<Rightarrow> 's \<Rightarrow> walkErr option \<times> 's"
and walkEntries :: "(string \<Rightarrow> fileInfo \<Rightarrow> walkErr option \<Rightarrow> 's \<Rightarrow> walkErr option \<times> 's)
               \<Rightarrow> string \<Rightarrow> node list \<Rightarrow> 's \<Rightarrow> walkErr option \<times> 's"
where
  "walk fn path (File n sz mt) st = fn path (nodeInfo (File n sz mt)) None st"
| "walk fn path (Gone n) st = fn path (nodeInfo (Gone n)) (Some (ReadError path)) st"
| "walk fn path (Dir n listed entries) st =
     (let err = (if listed then None else Some (ReadError path))
      in case fn path (nodeInfo (Dir n listed entries)) err st of
           (err1, st1) \<Rightarrow>
             if err \<noteq> None \<or> err1 \<noteq> None then (err1, st1)
             else walkEntries fn path entries st1)"
| "walkEntries fn path [] st = (None, st)"
| "walkEntries fn path (entry # entries) st =
     (if lstatFails entry then
        (case fn (childPath path (nodeName entry)) (nodeInfo entry)
                (Some (ReadError (childPath path (nodeName entry)))) st of
           (err, st1) \<Rightarrow>
             if err \<noteq> None \<and> err \<noteq> Some SkipDir then (err, st1)
             else walkEntries fn path entries st1)
      else
        (case walk fn (childPath path (nodeName entry)) entry st of
           (err, st1) \<Rightarrow>
             if err \<noteq> None \<and> (\<not> IsDir (nodeInfo entry) \<or> err \<noteq> Some SkipDir)
             then (err, st1)
             else walkEntries fn path entries st1))"

definition Walk :: "(string \<Rightarrow> fileInfo \<Rightarrow> walkErr option \<Rightarrow> 's \<Rightarrow> walkErr option \<times> 's)
               \<Rightarrow> node \<Rightarrow> 's \<Rightarrow> walkErr option \<times> 's" where
  "Walk fn root st =
     (case walk fn ''.'' root st of
        (err, st1) \<Rightarrow> if err = Some SkipDir then (None, st1) else (err, st1))"

text \<open>The callback of the walk in \<open>SyncFiles\<close>; \<open>rel\<close> is the relative path it computes
  first.\<close>

definition pushVisit :: "Config \<Rightarrow> string \<Rightarrow> string \<Rightarrow> fileInfo \<Rightarrow> walkErr option \<Rightarrow> scan
                          \<Rightarrow> walkErr option \<times> scan" where
  "pushVisit cfg remoteDir rel fi err st =
     (if err \<noteq> None then (err, st)
      else if rel = ''.'' then (None, st)
      else if shouldIgnore (IgnorePatterns cfg) rel fi then
        (if IsDir fi then (Some SkipDir, st\<lparr>ignored := ignored st + 1\<rparr>)
         else (None, st\<lparr>ignored := ignored st + 1\<rparr>))
      else if \<not> IsDir fi then
        (None, st\<lparr>files := files st @
           [\<lparr>localPath = Join (LocalFolder cfg) rel,
             remotePath = ToSlash (Join remoteDir rel),
             relPath = rel, info = fi\<rparr>]\<rparr>)
      else (None, st\<lparr>mkdirs := mkdirs st @ [ToSlash (Join remoteDir rel)]\<rparr>))"

text \<open>\<open>uploadFile\<close>: on success the remote file has the bytes copied from the local
  path and the time the remote endpoint gives it.\<close>

definition uploadFile :: "env \<Rightarrow> string \<Rightarrow> string \<Rightarrow> fsys \<Rightarrow> error + fsys" where
  "uploadFile e localFile remoteFile remote =
     (if uploadFails e localFile then Inl (UploadFailed localFile)
      else Inr (remote(remoteFile \<mapsto>
             \<lparr>IsDir = False, Size = bytesCopied e localFile, ModTime = writeTime e remoteFile\<rparr>)))"

text \<open>The second pass of \<open>SyncFiles\<close>: the result is the error of the first upload that
  failed, or the two counters; the remote files are returned in both cases.\<close>

fun pushLoop :: "env \<Rightarrow> syncItem list \<Rightarrow> fsys \<Rightarrow> nat \<Rightarrow> nat \<Rightarrow> (error + nat \<times> nat) \<times> fsys" where
  "pushLoop e [] remote skippedCount syncedCount = (Inr (skippedCount, syncedCount), remote)"
| "pushLoop e (file # rest) remote skippedCount syncedCount =
     (if needsUpdate (info file) (remote (remotePath file)) then
        (case uploadFile e (localPath file) (remotePath file) remote of
           Inl err \<Rightarrow> (Inl err, remote)
         | Inr remote1 \<Rightarrow> pushLoop e rest remote1 skippedCount (syncedCount + 1))
      else pushLoop e rest remote (skippedCount + 1) syncedCount)"

text \<open>The first pass of \<open>SyncFiles\<close>: the walk of the local folder, after the remote
  folder itself was created.\<close>

definition scanLocal :: "Config \<Rightarrow> string \<Rightarrow> node \<Rightarrow> walkErr option \<times> scan" where
  "scanLocal cfg remoteDir localRoot =
     Walk (pushVisit cfg remoteDir) localRoot \<lparr>files = [], ignored = 0, mkdirs = [remoteDir]\<rparr>"

text \<open>\<open>SyncFiles\<close>. The result is the error or the counts the function logs, and the
  remote endpoint afterwards: its files and the directories the run asked it to create.
  Where there is no file to sync the function returns before the second pass.\<close>

definition SyncFiles :: "Config \<Rightarrow> env \<Rightarrow> node \<Rightarrow> fsys \<Rightarrow> (error + report) \<times> fsys \<times> string list" where
  "SyncFiles cfg e localRoot remote =
     (case localRoot of
        Gone n \<Rightarrow> (Inl LocalFolderInaccessible, remote, [])
      | File n sz mt \<Rightarrow> (Inl LocalFolderNotDirectory, remote, [])
      | Dir n listed entries \<Rightarrow>
          (case expandTilde e (RemoteFolder cfg) of
             Inl err \<Rightarrow> (Inl err, remote, [])
           | Inr remoteDir \<Rightarrow>
               (case scanLocal cfg remoteDir localRoot of
                  (Some err, st) \<Rightarrow> (Inl ScanFailed, remote, mkdirs st)
                | (None, st) \<Rightarrow>
                    if files st = [] then
                      (Inr \<lparr>checked = 0, transferred = 0, skipped = 0,
                            ignoredCount = ignored st\<rparr>, remote, mkdirs st)
                    else
                      (case pushLoop e (files st) remote 0 0 of
                         (Inl err, remote1) \<Rightarrow> (Inl err, remote1, mkdirs st)
                       | (Inr (skippedCount, syncedCount), remote1) \<Rightarrow>
                           (Inr \<lparr>checked = length (files st), transferred = syncedCount,
                                 skipped = skippedCount, ignoredCount = ignored st\<rparr>,
                            remote1, mkdirs st)))))"

text \<open>
  Whether the walk of \<open>SyncFiles\<close> meets an entry it cannot read: an entry whose
  \<open>lstat\<close> fails or a directory that cannot be listed, outside the directories the walk
  skips as ignored. This is the property "reading a node fails during the enumeration" of
  the specification, stated over the tree; the root is never tested against the rules.
\<close>

fun readFails :: "Config \<Rightarrow> string \<Rightarrow> node \<Rightarrow> bool"
and readFailsIn :: "Config \<Rightarrow> string \<Rightarrow> node list \<Rightarrow> bool"
where
  "readFails cfg path (File n sz mt) = False"
| "readFails cfg path (Gone n) = True"
| "readFails cfg path (Dir n listed entries) =
     (if \<not> listed then True
      else if path \<noteq> ''.'' \<and> shouldIgnore (IgnorePatterns cfg) path (nodeInfo (Dir n listed entries))
      then False
      else readFailsIn cfg path entries)"
| "readFailsIn cfg path [] = False"
| "readFailsIn cfg path (entry # entries) =
     (if readFails cfg (childPath path (nodeName entry)) entry then True
      else readFailsIn cfg path entries)"

section \<open>Pull: PullFiles\<close>

text \<open>
  The walker of the SFTP client, as the loop of \<open>PullFiles\<close> drives it: the loop never
  asks the walker to skip a directory, so \<open>Step\<close> yields every entry in pre-order, each
  with its path relative to the root, its info and whether it carries an error. A
  directory whose listing fails is yielded once as a directory and once more with the
  error. The listing of a remote directory carries the attributes of each entry, so an
  entry that cannot be read is not listed; a root that cannot be read is one item with
  an error.
\<close>

type_synonym walkItem = "string \<times> fileInfo \<times> bool"

fun walkerItems :: "string \<Rightarrow> node \<Rightarrow> walkItem list"
and walkerEntries :: "string \<Rightarrow> node list \<Rightarrow> walkItem list"
where
  "walkerItems path (File n sz mt) = [(path, nodeInfo (File n sz mt), False)]"
| "walkerItems path (Gone n) = [(path, nodeInfo (Gone n), True)]"
| "walkerItems path (Dir n listed entries) =
     (path, nodeInfo (Dir n listed entries), False) #
       (if listed then walkerEntries path entries
        else [(path, nodeInfo (Dir n listed entries), True)])"
| "walkerEntries path [] = []"
| "walkerEntries path (entry # entries) =
     (if lstatFails entry then walkerEntries path entries
      else walkerItems (childPath path (nodeName entry)) entry @ walkerEntries path entries)"

text \<open>The body of the loop over the walker's steps in \<open>PullFiles\<close>.\<close>

definition pullVisit :: "Config \<Rightarrow> string \<Rightarrow> walkItem \<Rightarrow> scan \<Rightarrow> scan" where
  "pullVisit cfg remoteDir item st =
     (case item of
        (rel, fi, err) \<Rightarrow>
          if err then st
          else if rel = ''.'' then st
          else if shouldIgnore (IgnorePatterns cfg) rel fi then st\<lparr>ignored := ignored st + 1\<rparr>
          else if \<not> IsDir fi then
            st\<lparr>files := files st @
               [\<lparr>localPath = Join (LocalFolder cfg) rel,
                 remotePath = Join remoteDir rel,
                 relPath = rel, info = fi\<rparr>]\<rparr>
          else st\<lparr>mkdirs := mkdirs st @ [Join (LocalFolder cfg) rel]\<rparr>)"

fun pullScan :: "Config \<Rightarrow> string \<Rightarrow> walkItem list \<Rightarrow> scan \<Rightarrow> scan" where
  "pullScan cfg remoteDir [] st = st"
| "pullScan cfg remoteDir (item # items) st =
     pullScan cfg remoteDir items (pullVisit cfg remoteDir item st)"

definition downloadFile :: "env \<Rightarrow> string \<Rightarrow> string \<Rightarrow> fsys \<Rightarrow> error + fsys" where
  "downloadFile e remoteFile localFile local =
     (if downloadFails e remoteFile then Inl (DownloadFailed remoteFile)
      else Inr (local(localFile \<mapsto>
             \<lparr>IsDir = False, Size = bytesCopied e remoteFile, ModTime = writeTime e localFile\<rparr>)))"

fun pullLoop :: "env \<Rightarrow> syncItem list \<Rightarrow> fsys \<Rightarrow> nat \<Rightarrow> nat \<Rightarrow> (error + nat \<times> nat) \<times> fsys" where
  "pullLoop e [] local downloadedCount skippedCount = (Inr (downloadedCount, skippedCount), local)"
| "pullLoop e (file # rest) local downloadedCount skippedCount =
     (if needsUpdate (info file) (local (localPath file)) then
        (case downloadFile e (remotePath file) (localPath file) local of
           Inl err \<Rightarrow> (Inl err, local)
         | Inr local1 \<Rightarrow> pullLoop e rest local1 (downloadedCount + 1) skippedCount)
      else pullLoop e rest local downloadedCount (skippedCount + 1))"

definition PullFiles :: "Config \<Rightarrow> env \<Rightarrow> node \<Rightarrow> fsys \<Rightarrow> (error + report) \<times> fsys \<times> string list" where
  "PullFiles cfg e remoteRoot local =
     (case expandTilde e (RemoteFolder cfg) of
        Inl err \<Rightarrow> (Inl err, local, [])
      | Inr remoteDir0 \<Rightarrow>
          (let remoteDir = ToSlash remoteDir0
           in if localMkdirFails e then (Inl LocalMkdirFailed, local, [])
              else
                (let st = pullScan cfg remoteDir (walkerItems ''.'' remoteRoot)
                            \<lparr>files = [], ignored = 0, mkdirs = [LocalFolder cfg]\<rparr>
                 in if files st = [] then
                      (Inr \<lparr>checked = 0, transferred = 0, skipped = 0,
                            ignoredCount = ignored st\<rparr>, local, mkdirs st)
                    else
                      (case pullLoop e (files st) local 0 0 of
                         (Inl err, local1) \<Rightarrow> (Inl err, local1, mkdirs st)
                       | (Inr (downloadedCount, skippedCount), local1) \<Rightarrow>
                           (Inr \<lparr>checked = length (files st), transferred = downloadedCount,
                                 skipped = skippedCount, ignoredCount = ignored st\<rparr>,
                            local1, mkdirs st)))))"

section \<open>Deployment: ExecuteDockerCommands\<close>

text \<open>
  The remote commands of the deployment, by the place that issues them. The remote host
  answers each with an outcome: no session could be opened, the command could not be
  started, or it ran and exited (\<open>True\<close> for exit status zero) with its output. The
  trace records, in order, each call of one of the three \<open>executeRemoteCommand\<close>
  functions, the start of the command on the host, and the return of the call (\<open>True\<close>
  where it returns no error).
\<close>

datatype step = CheckDockerfile | StopContainers | RemoveImage | BuildImage | RunContainer

datatype outcome = NoSession | StartFailed | Exited bool string

datatype event = Call step string | Started step | Return step bool

text \<open>What the three functions share: a session is opened, the command is run in it and
  waited for. The result is the output and whether no error came back.\<close>

definition runInSession ::
    "(step \<Rightarrow> outcome) \<Rightarrow> step \<Rightarrow> string \<Rightarrow> event list \<Rightarrow> (string \<times> bool) \<times> event list" where
  "runInSession run s command tr =
     (case run s of
        NoSession \<Rightarrow> (([], False), tr @ [Call s command, Return s False])
      | StartFailed \<Rightarrow> (([], False), tr @ [Call s command, Return s False])
      | Exited ok out \<Rightarrow> ((out, ok), tr @ [Call s command, Started s, Return s ok]))"

definition executeRemoteCommandQuiet ::
    "(step \<Rightarrow> outcome) \<Rightarrow> step \<Rightarrow> string \<Rightarrow> event list \<Rightarrow> bool \<times> event list" where
  "executeRemoteCommandQuiet run s command tr =
     (case runInSession run s command tr of ((out, ok), tr1) \<Rightarrow> (ok, tr1))"

definition executeRemoteCommandWithOutput ::
    "(step \<Rightarrow> outcome) \<Rightarrow> step \<Rightarrow> string \<Rightarrow> bool \<Rightarrow> event list \<Rightarrow> (string \<times> bool) \<times> event list" where
  "executeRemoteCommandWithOutput run s command showErrors tr =
     (case runInSession run s command tr of ((out, ok), tr1) \<Rightarrow> ((out, ok), tr1))"

definition executeRemoteCommandWithProgress ::
    "(step \<Rightarrow> outcome) \<Rightarrow> step \<Rightarrow> string \<Rightarrow> event list \<Rightarrow> bool \<times> event list" where
  "executeRemoteCommandWithProgress run s command tr =
     (case runInSession run s command tr of ((out, ok), tr1) \<Rightarrow> (ok, tr1))"

text \<open>\<open>ExecuteDockerCommands\<close>: the error it returns, if any, and the trace of the remote
  calls. The results of the check for the Dockerfile and of the two \<open>Quiet\<close> calls are
  dropped, as the code drops them.\<close>

definition ExecuteDockerCommands ::
    "Config \<Rightarrow> env \<Rightarrow> (step \<Rightarrow> outcome) \<Rightarrow> error option \<times> event list" where
  "ExecuteDockerCommands cfg e run =
     (case expandTilde e (RemoteFolder cfg) of
        Inl err \<Rightarrow> (Some err, [])
      | Inr remoteDir0 \<Rightarrow>
          (let remoteDir = ToSlash remoteDir0;
               checkCmd = ''test -f '' @ remoteDir @
                 ''/Dockerfile && echo 'Dockerfile found' || echo 'Dockerfile NOT found'' @ [CHR 0x27];
               (probe, tr0) = executeRemoteCommandWithOutput run CheckDockerfile checkCmd False [];
               cmd1 = ''sudo docker ps -aq --filter ancestor='' @ DockerImageName cfg @
                 '' | xargs -r sudo docker stop | xargs -r sudo docker rm'';
               (ok1, tr1) = executeRemoteCommandQuiet run StopContainers cmd1 tr0;
               cmd2 = ''sudo docker rmi -f '' @ DockerImageName cfg @ '' 2>/dev/null || true'';
               (ok2, tr2) = executeRemoteCommandQuiet run RemoveImage cmd2 tr1;
               buildArgs = (if DockerBuildArgs cfg = [] then ''-t'' else DockerBuildArgs cfg);
               cmd3 = ''cd '' @ remoteDir @ '' && sudo docker build '' @ buildArgs @ '' '' @
                 DockerImageName cfg @ '' .'';
               (ok3, tr3) = executeRemoteCommandWithProgress run BuildImage cmd3 tr2
           in if \<not> ok3 then (Some BuildFailed, tr3)
              else
                (let runArgs = (if DockerRunArgs cfg = [] then ''-d'' else DockerRunArgs cfg);
                     cmd4 = ''sudo docker run '' @ runArgs @ '' '' @ DockerImageName cfg;
                     (ran, tr4) = executeRemoteCommandWithOutput run RunContainer cmd4 True tr3
                 in if \<not> snd ran then (Some RunFailed, tr4) else (None, tr4))))"

section \<open>Notions for the proofs\<close>

text \<open>\<open>below c r\<close>: the relative path \<open>r\<close> is \<open>c\<close> or lies under the directory \<open>c\<close>.
  \<open>addsFiles rd st st' region\<close>: the scan state \<open>st'\<close> has the files of \<open>st\<close> and after
  them new ones, with pairwise distinct relative paths in \<open>region\<close> and the remote path
  that belongs to the relative path.\<close>

definition below :: "string \<Rightarrow> string \<Rightarrow> bool" where
  "below c r = (r = c \<or> (\<exists>s. r = c @ Separator # s))"

text \<open>\<open>properRel r\<close>: every element of the relative path \<open>r\<close> is a name a file system
  gives an entry.\<close>

definition properRel :: "string \<Rightarrow> bool" where
  "properRel r = (\<forall>p\<in>set (Split r Separator). validName p)"

definition addsFiles :: "string \<Rightarrow> scan \<Rightarrow> scan \<Rightarrow> (string \<Rightarrow> bool) \<Rightarrow> bool" where
  "addsFiles rd st st' region =
     (\<exists>new. files st' = files st @ new \<and> distinct (map relPath new) \<and>
        (\<forall>f\<in>set new. remotePath f = ToSlash (Join rd (relPath f)) \<and> region (relPath f)))"

section \<open>Example inputs\<close>

text \<open>The scenario of the specification: a local tree with \<open>a.txt\<close> (10 bytes),
  \<open>node_modules/x.js\<close> and \<open>.env\<close>, and the ignore list \<open>node_modules\<close>, \<open>*.env\<close>. The
  same tree serves as the remote tree of a pull. All three are regular files: a transfer
  copies as many bytes as the size of the file. The endpoint that is written to stamps
  every file with the time \<open>now\<close>.\<close>

definition exampleConfig :: Config where
  "exampleConfig =
     \<lparr>RemoteServer = ''host'', SSHUsername = ''bob'', SSHPassword = ''secret'',
      RemoteFolder = ''~/app'', LocalFolder = ''.'', DockerImageName = ''img'',
      DockerBuildArgs = [], DockerRunArgs = [],
      IgnorePatterns = [''node_modules'', ''*.env'']\<rparr>"

definition exampleEnv :: "int \<Rightarrow> env" where
  "exampleEnv now =
     \<lparr>remoteHome = Some ''/home/bob'', uploadFails = (\<lambda>p. False),
      downloadFails = (\<lambda>p. False),
      bytesCopied = (\<lambda>p. if Base p = ''a.txt'' then 10 else if Base p = ''.env'' then 3 else 7),
      writeTime = (\<lambda>p. now), localMkdirFails = False\<rparr>"

definition exampleTree :: node where
  "exampleTree =
     Dir ''.'' True
       [File ''.env'' 3 100,
        File ''a.txt'' 10 5000000000,
        Dir ''node_modules'' True [File ''x.js'' 7 200]]"

section \<open>Properties of the ignore patterns\<close>

lemma Contains_single: "Contains s [c] = (c \<in> set s)"
  by (induction s) (auto simp: HasPrefix_def)

lemma HasSuffix_single: "HasSuffix s [c] = (s \<noteq> [] \<and> last s = c)"
proof (cases s rule: rev_cases)
  case Nil
  then show ?thesis by (simp add: HasSuffix_def)
next
  case (snoc ys y)
  then show ?thesis by (auto simp: HasSuffix_def)
qed

lemma anyPartMatches_iff:
  "anyPartMatches parts pat = (\<exists>part\<in>set parts. part = pat \<or> matchPattern part pat)"
  by (induction parts) auto

lemma shouldIgnore_iff:
  "shouldIgnore ps rel fi = (\<exists>p\<in>set ps. patternIgnores p rel fi)"
  by (induction ps) auto

lemma patternIgnores_IsDir:
  "IsDir fi = IsDir fi' \<Longrightarrow> patternIgnores p rel fi = patternIgnores p rel fi'"
  by (simp add: patternIgnores_def Let_def)

lemma TrimPrefix_suffix: "\<exists>pre. s = pre @ TrimPrefix s x \<and> set pre \<subseteq> set x"
proof (cases "HasPrefix s x")
  case True
  then have t: "take (length x) s = x" by (simp add: HasPrefix_def)
  have "s = x @ drop (length x) s" by (metis append_take_drop_id t)
  with True show ?thesis unfolding TrimPrefix_def by auto
next
  case False
  then have "s = [] @ TrimPrefix s x" by (simp add: TrimPrefix_def)
  then show ?thesis by (metis empty_set empty_subsetI)
qed

lemma cleanPattern_suffix:
  "\<exists>pre. p = pre @ cleanPattern p \<and> set pre \<subseteq> {CHR ''/'', CHR ''.''}"
proof -
  obtain a where a: "p = a @ TrimPrefix p ''/''" "set a \<subseteq> set ''/''"
    using TrimPrefix_suffix by blast
  obtain b where b: "TrimPrefix p ''/'' = b @ cleanPattern p" "set b \<subseteq> set ''./''"
    unfolding cleanPattern_def using TrimPrefix_suffix by blast
  have "p = (a @ b) @ cleanPattern p" using a(1) b(1) by simp
  moreover have "set (a @ b) \<subseteq> {CHR ''/'', CHR ''.''}" using a(2) b(2) by auto
  ultimately show ?thesis by blast
qed

lemma wildcard_clean:
  assumes "Contains p ''*''" and "\<not> HasSuffix p ''/''"
  shows "Contains (cleanPattern p) ''*'' \<and> \<not> HasSuffix (cleanPattern p) ''/''"
proof -
  obtain pre where pre: "p = pre @ cleanPattern p" "set pre \<subseteq> {CHR ''/'', CHR ''.''}"
    using cleanPattern_suffix by blast
  from assms(1) have "CHR ''*'' \<in> set p" by (simp add: Contains_single)
  then have "CHR ''*'' \<in> set pre \<union> set (cleanPattern p)" by (subst (asm) pre(1)) simp
  with pre(2) have star: "CHR ''*'' \<in> set (cleanPattern p)" by auto
  then have ne: "cleanPattern p \<noteq> []" by auto
  have "last p = last (cleanPattern p)" using ne by (subst pre(1)) simp
  moreover have "p \<noteq> []" using ne pre(1) by auto
  ultimately have "\<not> HasSuffix (cleanPattern p) ''/''"
    using assms(2) ne by (simp add: HasSuffix_single)
  with star show ?thesis by (simp add: Contains_single)
qed

text \<open>
  Claim C4, as amended. The claim says that a directory rule (a pattern with a trailing
  slash) compares by equality only. It does so where the rule has no star: it matches
  exactly when the entry is a directory whose base name is the rule, or some part of the
  path is the rule. Where the rule has a star, the base name and every part of the path
  are compared by \<open>filepath.Match\<close> as well, and a match of the base name counts for
  files too.
\<close>

theorem directory_rule_matches:
  assumes "HasSuffix (cleanPattern p) ''/''"
  shows "patternIgnores p rel fi =
     (if Contains (TrimSuffix (cleanPattern p) ''/'') ''*'' then
        (IsDir fi \<and> Base rel = TrimSuffix (cleanPattern p) ''/'') \<or>
        Match (TrimSuffix (cleanPattern p) ''/'') (Base rel) \<or>
        (\<exists>part\<in>set (Split rel CHR ''/'').
            part = TrimSuffix (cleanPattern p) ''/'' \<or>
            Match (TrimSuffix (cleanPattern p) ''/'') part)
      else
        (IsDir fi \<and> Base rel = TrimSuffix (cleanPattern p) ''/'') \<or>
        TrimSuffix (cleanPattern p) ''/'' \<in> set (Split rel CHR ''/''))"
  using assms
  by (auto simp: patternIgnores_def Let_def matchPattern_def anyPartMatches_iff ToSlash_def)

theorem directory_rule_matches_witness:
  "patternIgnores ''node_modules/'' ''node_modules/x.js''
     \<lparr>IsDir = False, Size = 7, ModTime = 200\<rparr> = True"
proof -
  have c: "cleanPattern ''node_modules/'' = ''node_modules/''"
    by (simp add: cleanPattern_def TrimPrefix_def HasPrefix_def)
  have h: "HasSuffix (cleanPattern ''node_modules/'') ''/''"
    by (simp add: c HasSuffix_def)
  have t: "TrimSuffix ''node_modules/'' ''/'' = ''node_modules''"
    by (simp add: TrimSuffix_def HasSuffix_def)
  have s: "Split ''node_modules/x.js'' CHR ''/'' = [''node_modules'', ''x.js'']"
    by simp
  show ?thesis
    using directory_rule_matches[OF h, of "''node_modules/x.js''"
        "\<lparr>IsDir = False, Size = 7, ModTime = 200\<rparr>"]
    by (simp add: c t s HasPrefix_def)
qed

text \<open>The claim as it was stated fails for a directory rule with a star: the rule
  \<open>b*/\<close> ignores the file \<open>bar\<close>, which is no directory and has no part equal to
  \<open>b*\<close>.\<close>

theorem directory_rule_glob_counterexample:
  "patternIgnores ''b*/'' ''bar'' \<lparr>IsDir = False, Size = 1, ModTime = 0\<rparr> \<and>
   \<not> IsDir \<lparr>IsDir = False, Size = 1, ModTime = 0\<rparr> \<and>
   ''b*'' \<notin> set (Split ''bar'' CHR ''/'')"
  by code_simp

text \<open>
  Claim C5. The result of \<open>shouldIgnore\<close> is a function of the path, of whether the entry
  is a directory and of the rules alone: of the info it reads \<open>IsDir\<close> only. It is the
  disjunction of the results of the single rules, so it is the same for every
  permutation of the rule list.
\<close>

theorem shouldIgnore_or_of_rules:
  assumes "IsDir fi = IsDir fi'" and "mset R = mset R'"
  shows "shouldIgnore R P fi = (\<exists>p\<in>set R. patternIgnores p P fi) \<and>
         shouldIgnore R P fi = shouldIgnore R' P fi'"
proof -
  have "set R = set R'" using assms(2) by (rule mset_eq_setD)
  then show ?thesis
    using patternIgnores_IsDir[OF assms(1)] by (simp add: shouldIgnore_iff)
qed

theorem shouldIgnore_or_of_rules_witness:
  "shouldIgnore [''node_modules'', ''*.env''] ''.env'' \<lparr>IsDir = False, Size = 3, ModTime = 100\<rparr> =
   shouldIgnore [''*.env'', ''node_modules''] ''.env'' \<lparr>IsDir = False, Size = 9, ModTime = 7\<rparr>"
proof -
  have i: "IsDir \<lparr>IsDir = False, Size = 3, ModTime = 100\<rparr> =
           IsDir \<lparr>IsDir = False, Size = 9, ModTime = 7\<rparr>" by simp
  have m: "mset [''node_modules'', ''*.env''] = mset [''*.env'', ''node_modules'']" by simp
  show ?thesis by (rule shouldIgnore_or_of_rules[OF i m, THEN conjunct2])
qed

text \<open>
  Claim C9. A wildcard rule (a pattern with a star and no trailing slash) ignores an
  entry exactly when \<open>filepath.Match\<close> matches the rule, cleaned, against the base name
  of the path. So two paths with the same base name get the same answer, whatever the
  directories above them are called.
\<close>

theorem wildcard_rule_base_name_only:
  assumes "Contains p ''*''" and "\<not> HasSuffix p ''/''"
  shows "patternIgnores p rel fi = Match (cleanPattern p) (Base rel) \<and>
         (Base rel = Base rel' \<longrightarrow> patternIgnores p rel fi = patternIgnores p rel' fi')"
  using wildcard_clean[OF assms]
  by (simp add: patternIgnores_def Let_def matchPattern_def)

theorem wildcard_rule_base_name_only_witness:
  "patternIgnores ''*.tmp'' ''x.tmp/keep.txt'' \<lparr>IsDir = False, Size = 1, ModTime = 0\<rparr> = False \<and>
   patternIgnores ''*.tmp'' ''keep/x.tmp'' \<lparr>IsDir = False, Size = 1, ModTime = 0\<rparr> = True"
proof -
  have c: "Contains ''*.tmp'' ''*''" by (simp add: HasPrefix_def)
  have h: "\<not> HasSuffix ''*.tmp'' ''/''" by (simp add: HasSuffix_def)
  have m1: "Match (cleanPattern ''*.tmp'') (Base ''x.tmp/keep.txt'') = False" by code_simp
  have m2: "Match (cleanPattern ''*.tmp'') (Base ''keep/x.tmp'') = True" by code_simp
  show ?thesis
    using wildcard_rule_base_name_only[OF c h, THEN conjunct1] by (simp add: m1 m2)
qed

section \<open>Properties of the change detection and of the counters\<close>

text \<open>
  Claim C3, as amended. \<open>needsUpdate\<close> is false exactly when the destination entry
  exists, its size is the source's size, and its modification time is strictly later
  than the source's time less one second; so a destination of another size always needs
  the transfer.
\<close>

theorem needsUpdate_false_iff:
  "(needsUpdate src dst = False) =
     (\<exists>d. dst = Some d \<and> Size d = Size src \<and> ModTime src - Second < ModTime d) \<and>
   (Size d' \<noteq> Size src \<longrightarrow> needsUpdate src (Some d') = True)"
  by (auto simp: needsUpdate_def After_def split: option.splits)

theorem needsUpdate_false_iff_witness:
  "needsUpdate \<lparr>IsDir = False, Size = 10, ModTime = 5000000000\<rparr>
     (Some \<lparr>IsDir = False, Size = 10, ModTime = 4000000001\<rparr>) = False \<and>
   needsUpdate \<lparr>IsDir = False, Size = 10, ModTime = 5000000000\<rparr>
     (Some \<lparr>IsDir = False, Size = 11, ModTime = 9000000000\<rparr>) = True"
  using needsUpdate_false_iff[of "\<lparr>IsDir = False, Size = 10, ModTime = 5000000000\<rparr>"
      "Some \<lparr>IsDir = False, Size = 10, ModTime = 4000000001\<rparr>"
      "\<lparr>IsDir = False, Size = 11, ModTime = 9000000000\<rparr>"]
  by (simp add: Second_def)

text \<open>The claim as it was stated says "no earlier than": a destination of the same size
  whose time is exactly the source's time less one second would be up to date. The code
  transfers it.\<close>

theorem needsUpdate_boundary_counterexample:
  "needsUpdate \<lparr>IsDir = False, Size = 10, ModTime = 5000000000\<rparr>
     (Some \<lparr>IsDir = False, Size = 10, ModTime = 4000000000\<rparr>) = True \<and>
   Size \<lparr>IsDir = False, Size = 10, ModTime = 4000000000\<rparr> =
     Size \<lparr>IsDir = False, Size = 10, ModTime = 5000000000\<rparr> \<and>
   ModTime \<lparr>IsDir = False, Size = 10, ModTime = 5000000000\<rparr> - Second
     \<le> ModTime \<lparr>IsDir = False, Size = 10, ModTime = 4000000000\<rparr>"
  by (simp add: needsUpdate_def After_def Second_def)

lemma pushLoop_counts:
  "pushLoop e fs remote sk sy = (Inr (sk', sy'), remote') \<Longrightarrow> sk' + sy' = sk + sy + length fs"
  by (induction fs arbitrary: remote sk sy) (auto split: if_splits sum.splits)

lemma pullLoop_counts:
  "pullLoop e fs local dl sk = (Inr (dl', sk'), local') \<Longrightarrow> dl' + sk' = dl + sk + length fs"
  by (induction fs arbitrary: local dl sk) (auto split: if_splits sum.splits)

lemma SyncFiles_counts:
  "SyncFiles cfg e root remote = (Inr r, out) \<Longrightarrow> checked r = transferred r + skipped r"
  by (auto simp: SyncFiles_def
      split: node.splits sum.splits prod.splits option.splits if_splits
      dest: pushLoop_counts)

lemma PullFiles_counts:
  "PullFiles cfg e root local = (Inr r, out) \<Longrightarrow> checked r = transferred r + skipped r"
  by (auto simp: PullFiles_def Let_def
      split: node.splits sum.splits prod.splits option.splits if_splits
      dest: pullLoop_counts)

text \<open>
  Claim C10. A run of \<open>SyncFiles\<close> or of \<open>PullFiles\<close> that returns no error reports as
  many checked files as transferred and skipped ones together: every planned item is
  counted once, as transferred or as up to date.
\<close>

theorem report_checked_is_transferred_plus_skipped:
  "(fst (SyncFiles cfg e localRoot remote) = Inr r \<longrightarrow>
      checked r = transferred r + skipped r) \<and>
   (fst (PullFiles cfg e remoteRoot local) = Inr r' \<longrightarrow>
      checked r' = transferred r' + skipped r')"
proof (intro conjI impI)
  assume "fst (SyncFiles cfg e localRoot remote) = Inr r"
  then obtain out where "SyncFiles cfg e localRoot remote = (Inr r, out)"
    by (cases "SyncFiles cfg e localRoot remote") simp
  then show "checked r = transferred r + skipped r" by (rule SyncFiles_counts)
next
  assume "fst (PullFiles cfg e remoteRoot local) = Inr r'"
  then obtain out where "PullFiles cfg e remoteRoot local = (Inr r', out)"
    by (cases "PullFiles cfg e remoteRoot local") simp
  then show "checked r' = transferred r' + skipped r'" by (rule PullFiles_counts)
qed

theorem report_checked_is_transferred_plus_skipped_witness:
  "fst (SyncFiles exampleConfig (exampleEnv 0) exampleTree Map.empty) =
     Inr \<lparr>checked = 1, transferred = 1, skipped = 0, ignoredCount = 2\<rparr> \<and>
   fst (PullFiles exampleConfig (exampleEnv 0) exampleTree Map.empty) =
     Inr \<lparr>checked = 1, transferred = 1, skipped = 0, ignoredCount = 3\<rparr> \<and>
   checked \<lparr>checked = 1, transferred = 1, skipped = 0, ignoredCount = 2\<rparr> =
     transferred \<lparr>checked = 1, transferred = 1, skipped = 0, ignoredCount = 2\<rparr> +
     skipped \<lparr>checked = 1, transferred = 1, skipped = 0, ignoredCount = 2\<rparr>"
proof -
  have push: "fst (SyncFiles exampleConfig (exampleEnv 0) exampleTree Map.empty) =
     Inr \<lparr>checked = 1, transferred = 1, skipped = 0, ignoredCount = 2\<rparr>"
    by code_simp
  have pull: "fst (PullFiles exampleConfig (exampleEnv 0) exampleTree Map.empty) =
     Inr \<lparr>checked = 1, transferred = 1, skipped = 0, ignoredCount = 3\<rparr>"
    by code_simp
  from report_checked_is_transferred_plus_skipped[THEN conjunct1, rule_format, OF push]
  show ?thesis using push pull by simp
qed

section \<open>Properties of the deployment\<close>

lemma runInSession_shape:
  "runInSession run s c tr = (r, tr') \<Longrightarrow>
     \<exists>mid. tr' = tr @ Call s c # mid @ [Return s (snd r)] \<and> set mid \<subseteq> {Started s}"
  by (auto simp: runInSession_def split: outcome.splits)

lemma Quiet_shape:
  "executeRemoteCommandQuiet run s c tr = (ok, tr') \<Longrightarrow>
     \<exists>mid. tr' = tr @ Call s c # mid @ [Return s ok] \<and> set mid \<subseteq> {Started s}"
  by (auto simp: executeRemoteCommandQuiet_def split: prod.splits dest!: runInSession_shape)

lemma WithOutput_shape:
  "executeRemoteCommandWithOutput run s c b tr = (r, tr') \<Longrightarrow>
     \<exists>mid. tr' = tr @ Call s c # mid @ [Return s (snd r)] \<and> set mid \<subseteq> {Started s}"
  by (auto simp: executeRemoteCommandWithOutput_def split: prod.splits dest!: runInSession_shape)

lemma WithProgress_shape:
  "executeRemoteCommandWithProgress run s c tr = (ok, tr') \<Longrightarrow>
     \<exists>mid. tr' = tr @ Call s c # mid @ [Return s ok] \<and> set mid \<subseteq> {Started s}"
  by (auto simp: executeRemoteCommandWithProgress_def split: prod.splits dest!: runInSession_shape)

lemma first_occurrence:
  assumes "xs @ ys = pre @ x # post" and "x \<notin> set xs"
  shows "set xs \<subseteq> set pre"
proof -
  from assms(1) consider us where "xs = pre @ us" "us @ ys = x # post"
    | us where "xs @ us = pre" "ys = us @ x # post"
    by (auto simp: append_eq_append_conv2)
  then show ?thesis
  proof cases
    case 1
    with assms(2) have "us = []" by (cases us) auto
    with 1 show ?thesis by simp
  next
    case 2
    then show ?thesis by auto
  qed
qed

lemma docker_trace:
  assumes "expandTilde e (RemoteFolder cfg) = Inr d"
  shows "\<exists>early build late ok2 ok3 c3.
     snd (ExecuteDockerCommands cfg e run) = (early @ [Return RemoveImage ok2]) @ (Call BuildImage c3 # build @ [Return BuildImage ok3]) @ late \<and>
     set early \<subseteq> {ev. \<exists>c b. ev = Call CheckDockerfile c \<or> ev = Started CheckDockerfile \<or> ev = Return CheckDockerfile b \<or>
         ev = Call StopContainers c \<or> ev = Started StopContainers \<or> ev = Return StopContainers b \<or>
         ev = Call RemoveImage c \<or> ev = Started RemoveImage} \<and>
     set build \<subseteq> {Started BuildImage} \<and>
     (late \<noteq> [] \<longrightarrow> ok3) \<and> 
     (fst (ExecuteDockerCommands cfg e run) = Some BuildFailed) = (\<not> ok3)"
proof -
  let ?d = "ToSlash d"
  obtain p tr0 where r0: "executeRemoteCommandWithOutput run CheckDockerfile
      (''test -f '' @ ?d @ ''/Dockerfile && echo 'Dockerfile found' || echo 'Dockerfile NOT found'' @ [CHR 0x27]) False [] = (p, tr0)"
    by fastforce
  obtain ok1 tr1 where r1: "executeRemoteCommandQuiet run StopContainers
      (''sudo docker ps -aq --filter ancestor='' @ DockerImageName cfg @
                 '' | xargs -r sudo docker stop | xargs -r sudo docker rm'') tr0 = (ok1, tr1)"
    by fastforce
  obtain ok2 tr2 where r2: "executeRemoteCommandQuiet run RemoveImage
      (''sudo docker rmi -f '' @ DockerImageName cfg @ '' 2>/dev/null || true'') tr1 = (ok2, tr2)"
    by fastforce
  let ?c3 = "''cd '' @ ?d @ '' && sudo docker build '' @ (if DockerBuildArgs cfg = [] then ''-t'' else DockerBuildArgs cfg) @ '' '' @
                 DockerImageName cfg @ '' .''"
  obtain ok3 tr3 where r3: "executeRemoteCommandWithProgress run BuildImage ?c3 tr2 = (ok3, tr3)"
    by fastforce
  obtain ran tr4 where r4: "executeRemoteCommandWithOutput run RunContainer
     (''sudo docker run '' @ (if DockerRunArgs cfg = [] then ''-d'' else DockerRunArgs cfg) @ '' '' @ DockerImageName cfg) True tr3 = (ran, tr4)"
    by fastforce
  from WithOutput_shape[OF r0] obtain m0 where m0: "tr0 = [] @ Call CheckDockerfile
      (''test -f '' @ ?d @ ''/Dockerfile && echo 'Dockerfile found' || echo 'Dockerfile NOT found'' @ [CHR 0x27]) # m0 @ [Return CheckDockerfile (snd p)]" "set m0 \<subseteq> {Started CheckDockerfile}" by blast
  from Quiet_shape[OF r1] obtain m1 c1 where m1: "tr1 = tr0 @ Call StopContainers c1 # m1 @ [Return StopContainers ok1]" "set m1 \<subseteq> {Started StopContainers}" by blast
  from Quiet_shape[OF r2] obtain m2 c2 where m2: "tr2 = tr1 @ Call RemoveImage c2 # m2 @ [Return RemoveImage ok2]" "set m2 \<subseteq> {Started RemoveImage}" by blast
  from WithProgress_shape[OF r3] obtain m3 where m3: "tr3 = tr2 @ Call BuildImage ?c3 # m3 @ [Return BuildImage ok3]" "set m3 \<subseteq> {Started BuildImage}" by blast
  from WithOutput_shape[OF r4] obtain m4 c4 where m4: "tr4 = tr3 @ Call RunContainer c4 # m4 @ [Return RunContainer (snd ran)]" by blast
  have res: "ExecuteDockerCommands cfg e run = (if \<not> ok3 then (Some BuildFailed, tr3) else if \<not> snd ran then (Some RunFailed, tr4) else (None, tr4))"
    using assms r0 r1 r2 r3 r4 by (simp add: ExecuteDockerCommands_def Let_def)
  let ?early = "tr1 @ Call RemoveImage c2 # m2"
  let ?late = "if ok3 then Call RunContainer c4 # m4 @ [Return RunContainer (snd ran)] else []"
  have "snd (ExecuteDockerCommands cfg e run) = (?early @ [Return RemoveImage ok2]) @ (Call BuildImage ?c3 # m3 @ [Return BuildImage ok3]) @ ?late"
    using res m2 m3 m4 by simp
  moreover have "set ?early \<subseteq> {ev. \<exists>c b. ev = Call CheckDockerfile c \<or> ev = Started CheckDockerfile \<or> ev = Return CheckDockerfile b \<or>
         ev = Call StopContainers c \<or> ev = Started StopContainers \<or> ev = Return StopContainers b \<or>
         ev = Call RemoveImage c \<or> ev = Started RemoveImage}"
    using m0 m1 m2(2) by auto
  moreover have "?late \<noteq> [] \<longrightarrow> ok3" by simp
  moreover have "(fst (ExecuteDockerCommands cfg e run) = Some BuildFailed) = (\<not> ok3)"
    using res by simp
  ultimately show ?thesis using m3(2) by blast
qed

text \<open>
  Claim C7. In the trace of every run of \<open>ExecuteDockerCommands\<close>, the call that issues
  the build command comes after the return of the call for the image removal (which
  returns whether or not the removal worked), and the call that issues the run command
  comes after a return of the build call without error.
\<close>

theorem pipeline_order:
  "(snd (ExecuteDockerCommands cfg e run) = pre @ Call BuildImage c # post \<longrightarrow>
      (\<exists>ok. Return RemoveImage ok \<in> set pre)) \<and>
   (snd (ExecuteDockerCommands cfg e run) = pre' @ Call RunContainer c' # post' \<longrightarrow>
      Return BuildImage True \<in> set pre')"
proof (cases "expandTilde e (RemoteFolder cfg)")
  case (Inl err)
  then have "snd (ExecuteDockerCommands cfg e run) = []"
    by (simp add: ExecuteDockerCommands_def)
  then show ?thesis by simp
next
  case (Inr d)
  from docker_trace[OF Inr, of run] obtain early build late ok2 ok3 c3 where
    tr: "snd (ExecuteDockerCommands cfg e run) =
       (early @ [Return RemoveImage ok2]) @ (Call BuildImage c3 # build @ [Return BuildImage ok3]) @ late"
    and early: "set early \<subseteq> {ev. \<exists>c b. ev = Call CheckDockerfile c \<or> ev = Started CheckDockerfile \<or> ev = Return CheckDockerfile b \<or>
         ev = Call StopContainers c \<or> ev = Started StopContainers \<or> ev = Return StopContainers b \<or>
         ev = Call RemoveImage c \<or> ev = Started RemoveImage}"
    and build: "set build \<subseteq> {Started BuildImage}"
    and late: "late \<noteq> [] \<longrightarrow> ok3"
    by blast
  show ?thesis
  proof (intro conjI impI)
    assume a: "snd (ExecuteDockerCommands cfg e run) = pre @ Call BuildImage c # post"
    have "Call BuildImage c \<notin> set (early @ [Return RemoveImage ok2])" using early by auto
    with first_occurrence[of "early @ [Return RemoveImage ok2]" _ pre "Call BuildImage c" post]
    have "set (early @ [Return RemoveImage ok2]) \<subseteq> set pre" using tr a by simp
    then show "\<exists>ok. Return RemoveImage ok \<in> set pre" by auto
  next
    assume a: "snd (ExecuteDockerCommands cfg e run) = pre' @ Call RunContainer c' # post'"
    let ?xs = "(early @ [Return RemoveImage ok2]) @ (Call BuildImage c3 # build @ [Return BuildImage ok3])"
    have notin: "Call RunContainer c' \<notin> set ?xs" using early build by auto
    have "late \<noteq> []"
    proof
      assume "late = []"
      with tr a have "Call RunContainer c' \<in> set ?xs" by (metis append_Nil2 in_set_conv_decomp)
      with notin show False by simp
    qed
    with late have ok3 by simp
    from first_occurrence[of ?xs late pre' "Call RunContainer c'" post'] tr a notin
    have "set ?xs \<subseteq> set pre'" by simp
    with \<open>ok3\<close> show "Return BuildImage True \<in> set pre'" by auto
  qed
qed

lemma runInSession_ok:
  "runInSession run s c tr = (r, tr') \<Longrightarrow> snd r = (\<exists>out. run s = Exited True out)"
  by (auto simp: runInSession_def split: outcome.splits)

lemma WithProgress_ok:
  "executeRemoteCommandWithProgress run s c tr = (ok, tr') \<Longrightarrow>
     ok = (\<exists>out. run s = Exited True out)"
  by (auto simp: executeRemoteCommandWithProgress_def split: prod.splits dest!: runInSession_ok)

lemma WithOutput_ok:
  "executeRemoteCommandWithOutput run s c b tr = (r, tr') \<Longrightarrow>
     snd r = (\<exists>out. run s = Exited True out)"
  by (auto simp: executeRemoteCommandWithOutput_def split: prod.splits dest!: runInSession_ok)

lemma docker_result:
  assumes "expandTilde e (RemoteFolder cfg) = Inr d"
  shows "fst (ExecuteDockerCommands cfg e run) =
     (if \<not> (\<exists>out. run BuildImage = Exited True out) then Some BuildFailed
      else if \<not> (\<exists>out. run RunContainer = Exited True out) then Some RunFailed
      else None)"
proof -
  let ?d = "ToSlash d"
  obtain p tr0 where r0: "executeRemoteCommandWithOutput run CheckDockerfile
      (''test -f '' @ ?d @ ''/Dockerfile && echo 'Dockerfile found' || echo 'Dockerfile NOT found'' @ [CHR 0x27]) False [] = (p, tr0)"
    by fastforce
  obtain ok1 tr1 where r1: "executeRemoteCommandQuiet run StopContainers
      (''sudo docker ps -aq --filter ancestor='' @ DockerImageName cfg @
                 '' | xargs -r sudo docker stop | xargs -r sudo docker rm'') tr0 = (ok1, tr1)"
    by fastforce
  obtain ok2 tr2 where r2: "executeRemoteCommandQuiet run RemoveImage
      (''sudo docker rmi -f '' @ DockerImageName cfg @ '' 2>/dev/null || true'') tr1 = (ok2, tr2)"
    by fastforce
  let ?c3 = "''cd '' @ ?d @ '' && sudo docker build '' @ (if DockerBuildArgs cfg = [] then ''-t'' else DockerBuildArgs cfg) @ '' '' @
                 DockerImageName cfg @ '' .''"
  obtain ok3 tr3 where r3: "executeRemoteCommandWithProgress run BuildImage ?c3 tr2 = (ok3, tr3)"
    by fastforce
  obtain ran tr4 where r4: "executeRemoteCommandWithOutput run RunContainer
     (''sudo docker run '' @ (if DockerRunArgs cfg = [] then ''-d'' else DockerRunArgs cfg) @ '' '' @ DockerImageName cfg) True tr3 = (ran, tr4)"
    by fastforce
  have res: "ExecuteDockerCommands cfg e run = (if \<not> ok3 then (Some BuildFailed, tr3) else if \<not> snd ran then (Some RunFailed, tr4) else (None, tr4))"
    using assms r0 r1 r2 r3 r4 by (simp add: ExecuteDockerCommands_def Let_def)
  show ?thesis
    using res WithProgress_ok[OF r3] WithOutput_ok[OF r4] by simp
qed

theorem pipeline_order_witness:
  "snd (ExecuteDockerCommands exampleConfig (exampleEnv 0) (\<lambda>s. Exited True ''id'')) =
     take 9 (snd (ExecuteDockerCommands exampleConfig (exampleEnv 0) (\<lambda>s. Exited True ''id''))) @
     Call BuildImage ''cd /home/bob/app && sudo docker build -t img .'' #
     drop 10 (snd (ExecuteDockerCommands exampleConfig (exampleEnv 0) (\<lambda>s. Exited True ''id''))) \<and>
   (\<exists>ok. Return RemoveImage ok \<in>
      set (take 9 (snd (ExecuteDockerCommands exampleConfig (exampleEnv 0) (\<lambda>s. Exited True ''id'')))))"
proof -
  have h: "snd (ExecuteDockerCommands exampleConfig (exampleEnv 0) (\<lambda>s. Exited True ''id'')) =
     take 9 (snd (ExecuteDockerCommands exampleConfig (exampleEnv 0) (\<lambda>s. Exited True ''id''))) @
     Call BuildImage ''cd /home/bob/app && sudo docker build -t img .'' #
     drop 10 (snd (ExecuteDockerCommands exampleConfig (exampleEnv 0) (\<lambda>s. Exited True ''id'')))"
    by code_simp
  from pipeline_order[THEN conjunct1, rule_format, OF h] h show ?thesis by blast
qed

text \<open>
  Claim C8. The error that \<open>ExecuteDockerCommands\<close> returns is the same whatever the
  outcomes of step 1 (stop and remove the containers) and step 2 (remove the image) are,
  so a failure of either is never the cause of an error; and the build step is called in
  every run that resolved the remote folder, which is all that comes before step 1.
\<close>

theorem ignore_policy_steps:
  "fst (ExecuteDockerCommands cfg e (run(StopContainers := o1, RemoveImage := o2))) =
     fst (ExecuteDockerCommands cfg e run) \<and>
   ((\<exists>c. Call BuildImage c \<in> set (snd (ExecuteDockerCommands cfg e run))) =
     (\<exists>d. expandTilde e (RemoteFolder cfg) = Inr d))"
proof
  show "fst (ExecuteDockerCommands cfg e (run(StopContainers := o1, RemoveImage := o2))) =
     fst (ExecuteDockerCommands cfg e run)"
  proof (cases "expandTilde e (RemoteFolder cfg)")
    case (Inl err)
    then show ?thesis by (simp add: ExecuteDockerCommands_def)
  next
    case (Inr d)
    then show ?thesis by (simp add: docker_result)
  qed
next
  show "(\<exists>c. Call BuildImage c \<in> set (snd (ExecuteDockerCommands cfg e run))) =
     (\<exists>d. expandTilde e (RemoteFolder cfg) = Inr d)"
  proof (cases "expandTilde e (RemoteFolder cfg)")
    case (Inl err)
    then show ?thesis by (simp add: ExecuteDockerCommands_def)
  next
    case (Inr d)
    from docker_trace[OF Inr, of run] show ?thesis using Inr by auto
  qed
qed


theorem ignore_policy_steps_witness:
  "fst (ExecuteDockerCommands exampleConfig (exampleEnv 0)
         ((\<lambda>s. Exited True ''id'')(StopContainers := NoSession,
                                      RemoveImage := Exited False ''No such image''))) = None"
proof -
  have "fst (ExecuteDockerCommands exampleConfig (exampleEnv 0) (\<lambda>s. Exited True ''id'')) = None"
    by code_simp
  then show ?thesis
    using ignore_policy_steps[THEN conjunct1, of exampleConfig "exampleEnv 0"
        "\<lambda>s. Exited True ''id''" NoSession "Exited False ''No such image''"]
    by simp
qed


section \<open>Properties of the scans\<close>

lemma Split_nonempty: "Split s c \<noteq> []"
  by (induction s) (auto split: list.splits)

lemma Split_append: "Split (a @ c # b) c = Split a c @ Split b c"
proof (induction a)
  case Nil
  show ?case by simp
next
  case (Cons x a)
  obtain h t where ht: "Split a c = h # t" using Split_nonempty[of a c] by (cases "Split a c") auto
  show ?case using Cons ht by simp
qed

lemma Split_no_sep: "c \<notin> set n \<Longrightarrow> Split n c = [n]"
  by (induction n) auto

lemma Base_name:
  assumes "n \<noteq> []" and "Separator \<notin> set n"
  shows "Base n = n"
proof -
  have l: "last n \<noteq> Separator" using assms by (metis last_in_set)
  have d: "dropWhile (\<lambda>c. c = Separator) (rev n) = rev n"
    using assms l by (cases n rule: rev_cases) auto
  have t: "takeWhile (\<lambda>c. c \<noteq> Separator) (rev n) = rev n"
    using assms(2) by auto
  show ?thesis using assms(1) by (simp add: Base_def Let_def d t)
qed

lemma Base_append:
  assumes "n \<noteq> []" and "Separator \<notin> set n"
  shows "Base (a @ Separator # n) = n"
proof -
  have l: "last n \<noteq> Separator" using assms by (metis last_in_set)
  have r: "rev (a @ Separator # n) = rev n @ Separator # rev a" by simp
  have d: "dropWhile (\<lambda>c. c = Separator) (rev n @ Separator # rev a) = rev n @ Separator # rev a"
    using assms l by (cases n rule: rev_cases) auto
  have t: "takeWhile (\<lambda>c. c \<noteq> Separator) (rev n @ Separator # rev a) = rev n"
    using assms(2) by (auto simp: takeWhile_tail)
  have "a @ Separator # n \<noteq> []" by simp
  then show ?thesis unfolding Base_def Let_def r d using assms(1) by (simp add: t)
qed


lemma childPath_Base: "n \<noteq> [] \<Longrightarrow> Separator \<notin> set n \<Longrightarrow> Base (childPath parent n) = n"
  by (simp add: childPath_def Base_name Base_append)

lemma childPath_part:
  assumes "Separator \<notin> set n"
  shows "n \<in> set (Split (childPath parent n) CHR ''/'')"
proof -
  have "Split n CHR ''/'' = [n]" using assms by (simp add: Split_no_sep Separator_def)
  then show ?thesis by (simp add: childPath_def Split_append Separator_def)
qed

lemma childPath_not_root:
  "n \<noteq> [] \<Longrightarrow> n \<noteq> ''.'' \<Longrightarrow> childPath parent n \<noteq> ''.''"
  by (cases parent) (auto simp: childPath_def Separator_def)

lemma childPath_parts:
  "parent \<noteq> ''.'' \<Longrightarrow> set (Split parent CHR ''/'') \<subseteq> set (Split (childPath parent n) CHR ''/'')"
  by (simp add: childPath_def Split_append Separator_def)

lemma childPath_deeper:
  "parent \<noteq> ''.'' \<Longrightarrow> childPath parent n \<noteq> ''.''"
  by (cases parent) (auto simp: childPath_def Separator_def)

lemma anyPartMatches_mono:
  "anyPartMatches xs pat \<Longrightarrow> set xs \<subseteq> set ys \<Longrightarrow> anyPartMatches ys pat"
  by (auto simp: anyPartMatches_iff)

lemma directory_rule_part:
  assumes "HasSuffix (cleanPattern p) ''/''"
      and "anyPartMatches (Split rel CHR ''/'') (TrimSuffix (cleanPattern p) ''/'')"
  shows "patternIgnores p rel fi"
  using assms by (simp add: patternIgnores_def Let_def ToSlash_def)

lemma directory_rule_match_part:
  assumes "HasSuffix (cleanPattern p) ''/''" and "patternIgnores p rel fi"
      and "Base rel \<in> set (Split rel CHR ''/'')"
  shows "anyPartMatches (Split rel CHR ''/'') (TrimSuffix (cleanPattern p) ''/'')"
  using assms
  by (auto simp: patternIgnores_def Let_def ToSlash_def anyPartMatches_iff split: if_splits)

lemma pullScan_append:
  "pullScan cfg rd (xs @ ys) st = pullScan cfg rd ys (pullScan cfg rd xs st)"
  by (induction xs arbitrary: st) auto

lemma pullVisit_ignored:
  assumes "shouldIgnore (IgnorePatterns cfg) rel fi"
  shows "files (pullVisit cfg rd (rel, fi, err) st) = files st \<and>
         mkdirs (pullVisit cfg rd (rel, fi, err) st) = mkdirs st"
  using assms by (simp add: pullVisit_def)

lemma pull_ignored_subtree:
  assumes "p \<in> set (IgnorePatterns cfg)" and "HasSuffix (cleanPattern p) ''/''"
  shows "rel \<noteq> ''.'' \<Longrightarrow>
         anyPartMatches (Split rel CHR ''/'') (TrimSuffix (cleanPattern p) ''/'') \<Longrightarrow>
         files (pullScan cfg rd (walkerItems rel t) st) = files st \<and>
         mkdirs (pullScan cfg rd (walkerItems rel t) st) = mkdirs st"
    and "rel \<noteq> ''.'' \<Longrightarrow>
         anyPartMatches (Split rel CHR ''/'') (TrimSuffix (cleanPattern p) ''/'') \<Longrightarrow>
         files (pullScan cfg rd (walkerEntries rel ts) st) = files st \<and>
         mkdirs (pullScan cfg rd (walkerEntries rel ts) st) = mkdirs st"
proof (induction rel t and rel ts arbitrary: st and st rule: walkerItems_walkerEntries.induct)
  case (1 path n sz mt)
  then have "shouldIgnore (IgnorePatterns cfg) path (nodeInfo (File n sz mt))"
    using assms directory_rule_part shouldIgnore_iff by blast
  then show ?case by (simp add: pullVisit_def)
next
  case (2 path n)
  then show ?case by (simp add: pullVisit_def)
next
  case (3 path n listed entries)
  then have ign: "shouldIgnore (IgnorePatterns cfg) path (nodeInfo (Dir n listed entries))"
    using assms directory_rule_part shouldIgnore_iff by blast
  have v: "files (pullVisit cfg rd (path, nodeInfo (Dir n listed entries), False) st) = files st \<and>
        mkdirs (pullVisit cfg rd (path, nodeInfo (Dir n listed entries), False) st) = mkdirs st"
    using ign by (rule pullVisit_ignored)
  show ?case
  proof (cases listed)
    case True
    with 3 v show ?thesis by simp
  next
    case False
    with v show ?thesis by (simp add: pullVisit_def)
  qed
next
  case (4 path)
  then show ?case by simp
next
  case (5 path entry entries)
  show ?case
  proof (cases "lstatFails entry")
    case True
    with "5.IH"(1)[OF True "5.prems"] show ?thesis by simp
  next
    case False
    let ?c = "childPath path (nodeName entry)"
    have c: "?c \<noteq> ''.''" using "5.prems"(1) by (rule childPath_deeper)
    have a: "anyPartMatches (Split ?c CHR ''/'') (TrimSuffix (cleanPattern p) ''/'')"
      using "5.prems"(2) childPath_parts[OF "5.prems"(1)] by (rule anyPartMatches_mono)
    show ?thesis
      using False "5.IH"(2)[OF False c a] "5.IH"(3)[OF False "5.prems"]
      by (simp add: pullScan_append)
  qed
qed

lemma pushVisit_ignored_dir:
  assumes "rel \<noteq> ''.''" and "shouldIgnore (IgnorePatterns cfg) rel fi" and "IsDir fi"
  shows "pushVisit cfg rd rel fi None st = (Some SkipDir, st\<lparr>ignored := ignored st + 1\<rparr>)"
  using assms by (simp add: pushVisit_def)

text \<open>
  What a directory rule does in each direction. Let a directory rule (a pattern with a
  trailing slash) of the configuration match a directory \<open>D\<close>, an entry named \<open>n\<close> of
  the directory at \<open>parent\<close>. In push, the callback answers \<open>filepath.SkipDir\<close> and the
  walk does not enter \<open>D\<close>: it goes on with the entries after \<open>D\<close>, and all that \<open>D\<close>
  with everything below it has changed is the ignored count, by one. In pull, the steps
  of the walker through \<open>D\<close> and everything below it add no file to the plan and create
  no directory; the ignored count is another matter there, see below.
\<close>

lemma directory_rule_skipped:
  assumes "p \<in> set (IgnorePatterns cfg)" and "HasSuffix (cleanPattern p) ''/''"
      and "validName n"
      and "patternIgnores p (childPath parent n) (nodeInfo (Dir n listed entries))"
  shows "walkEntries (pushVisit cfg remoteDir) parent (Dir n True entries # others) st =
           walkEntries (pushVisit cfg remoteDir) parent others (st\<lparr>ignored := ignored st + 1\<rparr>) \<and>
         files (pullScan cfg remoteDir (walkerItems (childPath parent n) (Dir n listed entries)) st) =
           files st \<and>
         mkdirs (pullScan cfg remoteDir (walkerItems (childPath parent n) (Dir n listed entries)) st) =
           mkdirs st"
proof -
  let ?rel = "childPath parent n"
  have name: "n \<noteq> []" "Separator \<notin> set n" "n \<noteq> ''.''"
    using assms(3) by (simp_all add: validName_def)
  have root: "?rel \<noteq> ''.''" using name(1,3) by (rule childPath_not_root)
  have "patternIgnores p ?rel (nodeInfo (Dir n True entries))" using assms(4) by simp
  then have ign: "shouldIgnore (IgnorePatterns cfg) ?rel (nodeInfo (Dir n True entries))"
    using assms(1) shouldIgnore_iff by blast
  have push: "pushVisit cfg remoteDir ?rel (nodeInfo (Dir n True entries)) None st =
      (Some SkipDir, st\<lparr>ignored := ignored st + 1\<rparr>)"
    using root ign by (rule pushVisit_ignored_dir) simp
  have "Base ?rel \<in> set (Split ?rel CHR ''/'')"
    using name(1,2) by (simp add: childPath_Base childPath_part)
  with assms(2,4) have part: "anyPartMatches (Split ?rel CHR ''/'') (TrimSuffix (cleanPattern p) ''/'')"
    by (rule directory_rule_match_part)
  have pull: "files (pullScan cfg remoteDir (walkerItems ?rel (Dir n listed entries)) st) = files st \<and>
      mkdirs (pullScan cfg remoteDir (walkerItems ?rel (Dir n listed entries)) st) = mkdirs st"
    using assms(1,2) root part by (rule pull_ignored_subtree(1))
  have "walkEntries (pushVisit cfg remoteDir) parent (Dir n True entries # others) st =
           walkEntries (pushVisit cfg remoteDir) parent others (st\<lparr>ignored := ignored st + 1\<rparr>)"
    using push by simp
  with pull show ?thesis by blast
qed

lemma directory_rule_skipped_example:
  "walkEntries (pushVisit (exampleConfig\<lparr>IgnorePatterns := [''node_modules/'']\<rparr>) ''/home/bob/app'') ''.''
      [Dir ''node_modules'' True [File ''x.js'' 7 200], File ''z.txt'' 1 1]
      \<lparr>files = [], ignored = 0, mkdirs = []\<rparr> =
   walkEntries (pushVisit (exampleConfig\<lparr>IgnorePatterns := [''node_modules/'']\<rparr>) ''/home/bob/app'') ''.''
      [File ''z.txt'' 1 1]
      \<lparr>files = [], ignored = 1, mkdirs = []\<rparr> \<and>
   files (pullScan (exampleConfig\<lparr>IgnorePatterns := [''node_modules/'']\<rparr>) ''/home/bob/app''
      (walkerItems ''node_modules'' (Dir ''node_modules'' True [File ''x.js'' 7 200]))
      \<lparr>files = [], ignored = 0, mkdirs = []\<rparr>) = []"
proof -
  let ?cfg = "exampleConfig\<lparr>IgnorePatterns := [''node_modules/'']\<rparr>"
  have h1: "''node_modules/'' \<in> set (IgnorePatterns ?cfg)" by simp
  have h2: "HasSuffix (cleanPattern ''node_modules/'') ''/''" by code_simp
  have h3: "validName ''node_modules''" by (simp add: validName_def Separator_def)
  have h6: "patternIgnores ''node_modules/'' (childPath ''.'' ''node_modules'')
      (nodeInfo (Dir ''node_modules'' True [File ''x.js'' 7 200]))" by code_simp
  have c: "childPath ''.'' ''node_modules'' = ''node_modules''" by (simp add: childPath_def)
  from directory_rule_skipped[OF h1 h2 h3 h6, of "''/home/bob/app''" "[File ''z.txt'' 1 1]"
      "\<lparr>files = [], ignored = 0, mkdirs = []\<rparr>"]
  show ?thesis unfolding c by simp
qed

text \<open>
  Claim C1. Where a directory rule matches a directory \<open>D\<close>, the enumeration, in push and
  in pull alike, yields no entry for a descendant of \<open>D\<close> and increments the ignored
  count once, for \<open>D\<close> itself: descendants are neither visited nor counted. Push does so
  (\<open>directory_rule_skipped\<close>). Pull does not: on an ignored entry the loop of \<open>PullFiles\<close>
  counts and goes on to the next step of the walker, without asking the walker to skip
  the directory as the callback of \<open>SyncFiles\<close> does with \<open>filepath.SkipDir\<close>. The walker
  then descends into \<open>D\<close>, and every descendant matches the rule through its path segment
  and is counted as well. On the tree that holds \<open>node_modules/x.js\<close>, with the rule
  \<open>node_modules/\<close>: the rule matches the directory, the walker behind pull yields a step
  for \<open>node_modules/x.js\<close>, the loop body counts that step as ignored, and the report of
  pull counts two ignored entries where the report of push counts one.
\<close>

theorem pull_visits_and_counts_descendants:
  "patternIgnores ''node_modules/'' ''node_modules'' (nodeInfo (Dir ''node_modules'' True [File ''x.js'' 7 200])) \<and>
   (''node_modules/x.js'', nodeInfo (File ''x.js'' 7 200), False) \<in> set (walkerItems ''.'' exampleTree) \<and>
   pullVisit (exampleConfig\<lparr>IgnorePatterns := [''node_modules/'']\<rparr>) ''/home/bob/app''
       (''node_modules/x.js'', nodeInfo (File ''x.js'' 7 200), False)
       \<lparr>files = [], ignored = 1, mkdirs = []\<rparr> =
     \<lparr>files = [], ignored = 2, mkdirs = []\<rparr> \<and>
   fst (SyncFiles (exampleConfig\<lparr>IgnorePatterns := [''node_modules/'']\<rparr>) (exampleEnv 0) exampleTree Map.empty) =
     Inr \<lparr>checked = 2, transferred = 2, skipped = 0, ignoredCount = 1\<rparr> \<and>
   fst (PullFiles (exampleConfig\<lparr>IgnorePatterns := [''node_modules/'']\<rparr>) (exampleEnv 0) exampleTree Map.empty) =
     Inr \<lparr>checked = 2, transferred = 2, skipped = 0, ignoredCount = 2\<rparr>"
  by code_simp

lemma pushVisit_error: "pushVisit cfg rd rel fi (Some err) st = (Some err, st)"
  by (simp add: pushVisit_def)

lemma pushVisit_file:
  "\<not> IsDir fi \<Longrightarrow> fst (pushVisit cfg rd rel fi None st) = None"
  by (simp add: pushVisit_def)

lemma pushVisit_dir:
  "IsDir fi \<Longrightarrow>
     fst (pushVisit cfg rd rel fi None st) =
       (if rel \<noteq> ''.'' \<and> shouldIgnore (IgnorePatterns cfg) rel fi then Some SkipDir else None)"
  by (simp add: pushVisit_def)

lemma walk_readFails:
  "fn = pushVisit cfg rd \<Longrightarrow>
     (readFails cfg path t \<longrightarrow> (\<exists>q. fst (walk fn path t st) = Some (ReadError q))) \<and>
     (\<not> readFails cfg path t \<longrightarrow>
        fst (walk fn path t st) = None \<or>
        (fst (walk fn path t st) = Some SkipDir \<and> IsDir (nodeInfo t)))"
  "fn = pushVisit cfg rd \<Longrightarrow>
     (readFailsIn cfg path ts \<longrightarrow> (\<exists>q. fst (walkEntries fn path ts st) = Some (ReadError q))) \<and>
     (\<not> readFailsIn cfg path ts \<longrightarrow> fst (walkEntries fn path ts st) = None)"
proof (induction fn path t st and fn path ts st rule: walk_walkEntries.induct)
  case (1 fn path n sz mt st)
  then show ?case by (simp add: pushVisit_file)
next
  case (2 fn path n st)
  then show ?case by (simp add: pushVisit_error)
next
  case (3 fn path n listed entries st)
  show ?case
  proof (cases listed)
    case False
    with 3(2) show ?thesis by (simp add: pushVisit_error)
  next
    case True
    obtain err1 st1 where v: "fn path (nodeInfo (Dir n listed entries)) None st = (err1, st1)"
      by fastforce
    have e1: "err1 = (if path \<noteq> ''.'' \<and> shouldIgnore (IgnorePatterns cfg) path (nodeInfo (Dir n listed entries))
                     then Some SkipDir else None)"
      using v 3(2) pushVisit_dir[of "nodeInfo (Dir n listed entries)" cfg rd path st] by simp
    show ?thesis
    proof (cases "path \<noteq> ''.'' \<and> shouldIgnore (IgnorePatterns cfg) path (nodeInfo (Dir n listed entries))")
      case ign: True
      with True v e1 show ?thesis by simp
    next
      case noign: False
      with e1 have n1: "err1 = None" by simp
      have w: "walk fn path (Dir n listed entries) st = walkEntries fn path entries st1"
        using True v n1 by simp
      have r: "readFails cfg path (Dir n listed entries) = readFailsIn cfg path entries"
        using True noign by auto
      have x: "None = (if listed then None else Some (ReadError path))" using True by simp
      have vv: "(None, st1) = fn path (nodeInfo (Dir n listed entries)) None st" using v n1 by simp
      have c: "\<not> ((None::walkErr option) \<noteq> None \<or> (None::walkErr option) \<noteq> None)" by simp
      from "3.IH"[OF x vv c "3.prems"]
      show ?thesis unfolding w r by auto
    qed
  qed
next
  case (4 fn path st)
  then show ?case by simp
next
  case (5 fn path entry entries st)
  let ?c = "childPath path (nodeName entry)"
  show ?case
  proof (cases "lstatFails entry")
    case True
    then obtain n where "entry = Gone n" by (cases entry) auto
    with "5.prems" show ?thesis by (simp add: pushVisit_error)
  next
    case False
    obtain err st1 where w: "walk fn ?c entry st = (err, st1)" by fastforce
    note ih = "5.IH"(2)[OF False "5.prems"]
    show ?thesis
    proof (cases "readFails cfg ?c entry")
      case True
      with ih w obtain q where "err = Some (ReadError q)" by auto
      with True False w show ?thesis by (simp del: readFails.simps walk.simps)
    next
      case nofail: False
      with ih w have e: "err = None \<or> (err = Some SkipDir \<and> IsDir (nodeInfo entry))" by auto
      then have c: "\<not> (err \<noteq> None \<and> (\<not> IsDir (nodeInfo entry) \<or> err \<noteq> Some SkipDir))"
        by auto
      from "5.IH"(3)[OF False w[symmetric] c "5.prems"] nofail False w e
      show ?thesis by (auto simp del: readFails.simps walk.simps)
    qed
  qed
qed

lemma Walk_readFails:
  "(fst (Walk (pushVisit cfg rd) (Dir n listed entries) st) \<noteq> None) =
     readFails cfg ''.'' (Dir n listed entries)"
proof -
  obtain err st1 where w: "walk (pushVisit cfg rd) ''.'' (Dir n listed entries) st = (err, st1)"
    by fastforce
  from walk_readFails(1)[OF refl, of cfg "''.''" "Dir n listed entries" rd st] w
  show ?thesis by (auto simp: Walk_def simp del: readFails.simps walk.simps)
qed

lemma expandTilde_error: "expandTilde e folder = Inl err \<Longrightarrow> err = RemoteHomeFailed"
  by (auto simp: expandTilde_def split: if_splits option.splits)

lemma pushLoop_error:
  "pushLoop e fs remote sk sy = (Inl err, remote') \<Longrightarrow> \<exists>q. err = UploadFailed q"
  by (induction fs arbitrary: remote sk sy)
     (auto simp: uploadFile_def split: if_splits sum.splits)

lemma pullLoop_error:
  "pullLoop e fs local dl sk = (Inl err, local') \<Longrightarrow> \<exists>q. err = DownloadFailed q"
  by (induction fs arbitrary: local dl sk)
     (auto simp: downloadFile_def split: if_splits sum.splits)

lemma PullFiles_no_scan_error: "fst (PullFiles cfg e remoteRoot local) \<noteq> Inl ScanFailed"
proof
  assume a: "fst (PullFiles cfg e remoteRoot local) = Inl ScanFailed"
  then show False
    by (auto simp: PullFiles_def Let_def
        split: sum.splits if_splits prod.splits
        dest: expandTilde_error pullLoop_error)
qed

lemma SyncFiles_scan_error:
  assumes "expandTilde e (RemoteFolder cfg) = Inr remoteDir"
  shows "(fst (SyncFiles cfg e (Dir n listed entries) remote) = Inl ScanFailed) =
           readFails cfg ''.'' (Dir n listed entries)"
    and "readFails cfg ''.'' (Dir n listed entries) \<Longrightarrow>
           fst (snd (SyncFiles cfg e (Dir n listed entries) remote)) = remote"
proof -
  obtain err st where w: "scanLocal cfg remoteDir (Dir n listed entries) = (err, st)"
    by fastforce
  have r: "(err \<noteq> None) = readFails cfg ''.'' (Dir n listed entries)"
    using Walk_readFails[of cfg remoteDir n listed entries
        "\<lparr>files = [], ignored = 0, mkdirs = [remoteDir]\<rparr>"] w
    by (simp add: scanLocal_def)
  show "(fst (SyncFiles cfg e (Dir n listed entries) remote) = Inl ScanFailed) =
           readFails cfg ''.'' (Dir n listed entries)"
  proof (cases err)
    case None
    then have "fst (SyncFiles cfg e (Dir n listed entries) remote) \<noteq> Inl ScanFailed"
      using assms w
      by (auto simp: SyncFiles_def split: prod.splits sum.splits dest: pushLoop_error)
    with None r show ?thesis by simp
  next
    case (Some a)
    then have "fst (SyncFiles cfg e (Dir n listed entries) remote) = Inl ScanFailed"
      using assms w by (simp add: SyncFiles_def)
    with Some r show ?thesis by simp
  qed
  show "fst (snd (SyncFiles cfg e (Dir n listed entries) remote)) = remote"
    if "readFails cfg ''.'' (Dir n listed entries)"
  proof -
    from that r obtain a where "err = Some a" by auto
    then show ?thesis using assms w by (simp add: SyncFiles_def)
  qed
qed

text \<open>
  Claim C2, as amended. In push, once the remote folder is resolved, \<open>SyncFiles\<close> fails
  with the scan error exactly when the walk meets an entry it cannot read, and then the
  remote files are as they were: nothing was transferred. In pull, a step of the walker
  that carries an error is skipped and the loop goes on, so \<open>PullFiles\<close> never fails
  with the scan error.
\<close>

theorem scan_read_failure:
  assumes "expandTilde e (RemoteFolder cfg) = Inr remoteDir"
  shows "((fst (SyncFiles cfg e (Dir n listed entries) remote) = Inl ScanFailed) =
            readFails cfg ''.'' (Dir n listed entries)) \<and>
         (readFails cfg ''.'' (Dir n listed entries) \<longrightarrow>
            fst (snd (SyncFiles cfg e (Dir n listed entries) remote)) = remote) \<and>
         fst (PullFiles cfg e remoteRoot local) \<noteq> Inl ScanFailed \<and>
         pullVisit cfg remoteDir (rel, fi, True) st = st"
  using SyncFiles_scan_error[OF assms] PullFiles_no_scan_error
  by (simp add: pullVisit_def)

theorem scan_read_failure_witness:
  "fst (SyncFiles exampleConfig (exampleEnv 0)
         (Dir ''.'' True [File ''a.txt'' 10 5000000000, Dir ''secret'' False []]) Map.empty) =
     Inl ScanFailed"
proof -
  have h: "expandTilde (exampleEnv 0) (RemoteFolder exampleConfig) = Inr ''/home/bob/app''"
    by code_simp
  have r: "readFails exampleConfig ''.''
      (Dir ''.'' True [File ''a.txt'' 10 5000000000, Dir ''secret'' False []])"
    by code_simp
  from scan_read_failure[OF h, THEN conjunct1, of "''.''" True
      "[File ''a.txt'' 10 5000000000, Dir ''secret'' False []]" Map.empty] r
  show ?thesis by simp
qed

text \<open>The claim as it was stated fails in pull: the directory \<open>secret\<close> cannot be
  listed, and \<open>PullFiles\<close> returns no error and transfers the file it found.\<close>

theorem pull_skips_read_failure_counterexample:
  "fst (PullFiles exampleConfig (exampleEnv 0)
         (Dir ''.'' True [File ''a.txt'' 10 5000000000, Dir ''secret'' False []]) Map.empty) =
     Inr \<lparr>checked = 1, transferred = 1, skipped = 0, ignoredCount = 0\<rparr>"
  by code_simp


section \<open>Pushing twice\<close>

lemma pushLoop_untouched:
  "pushLoop e fs remote sk sy = (res, remote') \<Longrightarrow> q \<notin> remotePath ` set fs \<Longrightarrow>
     remote' q = remote q"
proof (induction fs arbitrary: remote sk sy)
  case Nil
  then show ?case by simp
next
  case (Cons f fs)
  show ?case
  proof (cases "needsUpdate (info f) (remote (remotePath f))")
    case False
    with Cons.prems have "pushLoop e fs remote (sk + 1) sy = (res, remote')" by simp
    from Cons.IH[OF this] Cons.prems(2) show ?thesis by simp
  next
    case True
    show ?thesis
    proof (cases "uploadFile e (localPath f) (remotePath f) remote")
      case (Inl err)
      with True Cons.prems show ?thesis by simp
    next
      case (Inr remote1)
      with True Cons.prems have "pushLoop e fs remote1 sk (sy + 1) = (res, remote')" by simp
      from Cons.IH[OF this] Cons.prems(2) have "remote' q = remote1 q" by simp
      moreover have "remote1 q = remote q"
        using Inr Cons.prems(2) by (auto simp: uploadFile_def split: if_splits)
      ultimately show ?thesis by simp
    qed
  qed
qed

lemma written_is_current:
  assumes "ModTime src - Second < t" and "sz = Size src"
  shows "\<not> needsUpdate src (Some \<lparr>IsDir = False, Size = sz, ModTime = t\<rparr>)"
  using assms by (simp add: needsUpdate_def After_def)

lemma pushLoop_first:
  assumes "pushLoop e fs remote sk sy = (Inr c, remote')"
      and "distinct (map remotePath fs)"
      and "\<forall>f\<in>set fs. needsUpdate (info f) (remote (remotePath f)) \<longrightarrow>
             bytesCopied e (localPath f) = Size (info f) \<and>
             ModTime (info f) - Second < writeTime e (remotePath f)"
  shows "\<forall>f\<in>set fs. \<not> needsUpdate (info f) (remote' (remotePath f))"
  using assms
proof (induction fs arbitrary: remote sk sy)
  case Nil
  then show ?case by simp
next
  case (Cons f fs)
  have notin: "remotePath f \<notin> remotePath ` set fs" using Cons.prems(2) by simp
  have d: "distinct (map remotePath fs)" using Cons.prems(2) by simp
  show ?case
  proof (cases "needsUpdate (info f) (remote (remotePath f))")
    case False
    with Cons.prems(1) have run: "pushLoop e fs remote (sk + 1) sy = (Inr c, remote')" by simp
    have c: "\<forall>g\<in>set fs. needsUpdate (info g) (remote (remotePath g)) \<longrightarrow>
        bytesCopied e (localPath g) = Size (info g) \<and>
        ModTime (info g) - Second < writeTime e (remotePath g)"
      using Cons.prems(3) by simp
    have "remote' (remotePath f) = remote (remotePath f)"
      using run notin by (rule pushLoop_untouched)
    with False Cons.IH[OF run d c] show ?thesis by simp
  next
    case True
    show ?thesis
    proof (cases "uploadFile e (localPath f) (remotePath f) remote")
      case (Inl err)
      with True Cons.prems(1) show ?thesis by simp
    next
      case (Inr remote1)
      with True Cons.prems(1) have run: "pushLoop e fs remote1 sk (sy + 1) = (Inr c, remote')"
        by simp
      have r1: "remote1 = remote(remotePath f \<mapsto>
          \<lparr>IsDir = False, Size = bytesCopied e (localPath f),
           ModTime = writeTime e (remotePath f)\<rparr>)"
        using Inr by (auto simp: uploadFile_def split: if_splits)
      have same: "\<forall>g\<in>set fs. remote1 (remotePath g) = remote (remotePath g)"
      proof
        fix g assume "g \<in> set fs"
        then have "remotePath g \<in> remotePath ` set fs" by (rule imageI)
        with notin have "remotePath g \<noteq> remotePath f" by metis
        then show "remote1 (remotePath g) = remote (remotePath g)" by (simp add: r1)
      qed
      have c: "\<forall>g\<in>set fs. needsUpdate (info g) (remote1 (remotePath g)) \<longrightarrow>
          bytesCopied e (localPath g) = Size (info g) \<and>
          ModTime (info g) - Second < writeTime e (remotePath g)"
        using Cons.prems(3) same by simp
      have "remote' (remotePath f) = remote1 (remotePath f)"
        using run notin by (rule pushLoop_untouched)
      moreover have "remote1 (remotePath f) =
          Some \<lparr>IsDir = False, Size = bytesCopied e (localPath f),
                ModTime = writeTime e (remotePath f)\<rparr>"
        using r1 by simp
      moreover have "bytesCopied e (localPath f) = Size (info f)"
        and "ModTime (info f) - Second < writeTime e (remotePath f)"
        using Cons.prems(3) True by simp_all
      ultimately have "\<not> needsUpdate (info f) (remote' (remotePath f))"
        by (simp add: written_is_current)
      with Cons.IH[OF run d c] show ?thesis by simp
    qed
  qed
qed

lemma pushLoop_second:
  "\<forall>f\<in>set fs. \<not> needsUpdate (info f) (remote (remotePath f)) \<Longrightarrow>
     pushLoop e fs remote sk sy = (Inr (sk + length fs, sy), remote)"
  by (induction fs arbitrary: sk) auto

lemma below_refl: "below c c"
  by (simp add: below_def)

lemma below_child: "c \<noteq> ''.'' \<Longrightarrow> below (childPath c n) r \<Longrightarrow> below c r"
  by (auto simp: below_def childPath_def)

lemma name_cut:
  assumes "Separator \<notin> set a" and "Separator \<notin> set b"
      and "a @ ra = b @ rb"
      and "ra = [] \<or> (\<exists>s. ra = Separator # s)" and "rb = [] \<or> (\<exists>s. rb = Separator # s)"
  shows "a = b"
proof -
  have ta: "takeWhile (\<lambda>c. c \<noteq> Separator) (a @ ra) = a"
    using assms(1,4) by (auto simp: takeWhile_tail)
  have tb: "takeWhile (\<lambda>c. c \<noteq> Separator) (b @ rb) = b"
    using assms(2,5) by (auto simp: takeWhile_tail)
  from ta tb assms(3) show ?thesis by simp
qed

lemma below_disjoint:
  assumes "validName a" and "validName b" and "a \<noteq> b"
      and "below (childPath p a) r" and "below (childPath p b) r"
  shows False
proof -
  obtain X where X: "childPath p a = X @ a" "childPath p b = X @ b"
    by (cases "p = ''.''") (auto simp: childPath_def)
  from assms(4) X(1) obtain ra where ra: "r = X @ a @ ra" "ra = [] \<or> (\<exists>s. ra = Separator # s)"
    by (auto simp: below_def)
  from assms(5) X(2) obtain rb where rb: "r = X @ b @ rb" "rb = [] \<or> (\<exists>s. rb = Separator # s)"
    by (auto simp: below_def)
  from ra(1) rb(1) have "a @ ra = b @ rb" by simp
  then have "a = b"
    using assms(1,2) ra(2) rb(2) name_cut[of a b ra rb] by (simp add: validName_def)
  with assms(3) show False by simp
qed


lemma addsFiles_none: "files st' = files st \<Longrightarrow> addsFiles rd st st' region"
  by (simp add: addsFiles_def)

lemma addsFiles_weaken:
  "addsFiles rd st st' region \<Longrightarrow> (\<And>r. region r \<Longrightarrow> region' r) \<Longrightarrow> addsFiles rd st st' region'"
  by (auto simp: addsFiles_def)

lemma addsFiles_trans:
  assumes "addsFiles rd st st1 r1" and "addsFiles rd st1 st2 r2"
      and "\<And>x. r1 x \<Longrightarrow> r2 x \<Longrightarrow> False"
  shows "addsFiles rd st st2 (\<lambda>x. r1 x \<or> r2 x)"
proof -
  from assms(1) obtain n1 where n1: "files st1 = files st @ n1" "distinct (map relPath n1)"
    "\<forall>f\<in>set n1. remotePath f = ToSlash (Join rd (relPath f)) \<and> r1 (relPath f)"
    by (auto simp: addsFiles_def)
  from assms(2) obtain n2 where n2: "files st2 = files st1 @ n2" "distinct (map relPath n2)"
    "\<forall>f\<in>set n2. remotePath f = ToSlash (Join rd (relPath f)) \<and> r2 (relPath f)"
    by (auto simp: addsFiles_def)
  have "relPath ` set n1 \<inter> relPath ` set n2 = {}"
    using n1(3) n2(3) assms(3) by fastforce
  then have "distinct (map relPath (n1 @ n2))" using n1(2) n2(2) by simp
  moreover have "files st2 = files st @ (n1 @ n2)" using n1(1) n2(1) by simp
  moreover have "\<forall>f\<in>set (n1 @ n2). remotePath f = ToSlash (Join rd (relPath f)) \<and>
      (r1 (relPath f) \<or> r2 (relPath f))"
    using n1(3) n2(3) by auto
  ultimately show ?thesis unfolding addsFiles_def by blast
qed

lemma pushVisit_adds:
  "addsFiles rd st (snd (pushVisit cfg rd c fi err st)) (\<lambda>r. r = c)"
  by (auto simp: pushVisit_def addsFiles_def)

lemma pushVisit_dir_files:
  "IsDir fi \<Longrightarrow> files (snd (pushVisit cfg rd c fi err st)) = files st"
  by (auto simp: pushVisit_def)

lemma validEntries_names:
  "validEntries es \<Longrightarrow> e \<in> set es \<Longrightarrow> validName (nodeName e)"
  by (induction es) auto

lemma walk_adds:
  "fn = pushVisit cfg rd \<Longrightarrow> validTree t \<Longrightarrow>
     addsFiles rd st (snd (walk fn c t st)) (\<lambda>r. c \<noteq> ''.'' \<longrightarrow> below c r)"
  "fn = pushVisit cfg rd \<Longrightarrow> validEntries es \<Longrightarrow>
     addsFiles rd st (snd (walkEntries fn c es st))
       (\<lambda>r. \<exists>e\<in>set es. below (childPath c (nodeName e)) r)"
proof (induction fn c t st and fn c es st rule: walk_walkEntries.induct)
  case (1 fn path n sz mt st)
  have "addsFiles rd st (snd (pushVisit cfg rd path (nodeInfo (File n sz mt)) None st)) (\<lambda>r. r = path)"
    by (rule pushVisit_adds)
  then show ?case using 1(1) by (auto elim!: addsFiles_weaken simp: below_refl)
next
  case (2 fn path n st)
  have "addsFiles rd st (snd (pushVisit cfg rd path (nodeInfo (Gone n)) (Some (ReadError path)) st)) (\<lambda>r. r = path)"
    by (rule pushVisit_adds)
  then show ?case using 2(1) by (auto elim!: addsFiles_weaken simp: below_refl)
next
  case (3 fn path n listed entries st)
  let ?err = "if listed then None else Some (ReadError path)"
  obtain err1 st1 where v: "fn path (nodeInfo (Dir n listed entries)) ?err st = (err1, st1)"
    by fastforce
  have f1: "files st1 = files st"
    using v "3.prems"(1) pushVisit_dir_files[of "nodeInfo (Dir n listed entries)" cfg rd path ?err st]
    by simp
  show ?case
  proof (cases "?err \<noteq> None \<or> err1 \<noteq> None")
    case True
    then have "snd (walk fn path (Dir n listed entries) st) = st1" using v by auto
    with f1 show ?thesis by (simp add: addsFiles_none)
  next
    case False
    then have w: "walk fn path (Dir n listed entries) st = walkEntries fn path entries st1"
      using v by auto
    have ve: "validEntries entries" using "3.prems"(2) by simp
    from "3.IH"[OF refl v[symmetric] False "3.prems"(1) ve]
    have "addsFiles rd st1 (snd (walkEntries fn path entries st1))
       (\<lambda>r. \<exists>e\<in>set entries. below (childPath path (nodeName e)) r)" .
    then have "addsFiles rd st (snd (walkEntries fn path entries st1))
       (\<lambda>r. \<exists>e\<in>set entries. below (childPath path (nodeName e)) r)"
      using f1 by (simp add: addsFiles_def)
    then show ?thesis unfolding w
      by (rule addsFiles_weaken) (auto intro: below_child)
  qed
next
  case (4 fn path st)
  then show ?case by (simp add: addsFiles_none)
next
  case (5 fn path entry entries st)
  let ?c = "childPath path (nodeName entry)"
  have vn: "validName (nodeName entry)" and fresh: "nodeName entry \<notin> set (map nodeName entries)"
    and vt: "validTree entry" and ve: "validEntries entries"
    using "5.prems"(2) by auto
  have croot: "?c \<noteq> ''.''" using vn by (simp add: validName_def childPath_not_root)
  show ?case
  proof (cases "lstatFails entry")
    case True
    then obtain n where "entry = Gone n" by (cases entry) auto
    with "5.prems"(1) show ?thesis by (simp add: pushVisit_error addsFiles_none)
  next
    case False
    obtain err st1 where w: "walk fn ?c entry st = (err, st1)" by fastforce
    from "5.IH"(2)[OF False "5.prems"(1) vt] w croot
    have a1: "addsFiles rd st st1 (below ?c)" by simp
    show ?thesis
    proof (cases "err \<noteq> None \<and> (\<not> IsDir (nodeInfo entry) \<or> err \<noteq> Some SkipDir)")
      case True
      then have "snd (walkEntries fn path (entry # entries) st) = st1" using False w by simp
      with a1 show ?thesis by (auto elim!: addsFiles_weaken)
    next
      case cont: False
      then have s: "snd (walkEntries fn path (entry # entries) st) =
          snd (walkEntries fn path entries st1)" using False w by auto
      from "5.IH"(3)[OF False w[symmetric] cont "5.prems"(1) ve]
      have a2: "addsFiles rd st1 (snd (walkEntries fn path entries st1))
          (\<lambda>r. \<exists>e\<in>set entries. below (childPath path (nodeName e)) r)" .
      have disj: "\<And>x. below ?c x \<Longrightarrow>
          \<exists>e\<in>set entries. below (childPath path (nodeName e)) x \<Longrightarrow> False"
      proof -
        fix x assume b1: "below ?c x" and "\<exists>e\<in>set entries. below (childPath path (nodeName e)) x"
        then obtain e where e: "e \<in> set entries" "below (childPath path (nodeName e)) x" by blast
        have "validName (nodeName e)" using ve e(1) by (rule validEntries_names)
        moreover have "nodeName entry \<noteq> nodeName e" using fresh e(1) by auto
        ultimately show False using vn b1 e(2) below_disjoint by blast
      qed
      from addsFiles_trans[OF a1 a2 disj]
      show ?thesis unfolding s by (rule addsFiles_weaken) auto
    qed
  qed
qed

lemma foldl_valid:
  "\<forall>p\<in>set ps. validName p \<Longrightarrow> foldl (cleanStep r) S ps = rev ps @ S"
  by (induction ps arbitrary: S) (auto simp: validName_def cleanStep.simps)

lemma Split_parts_no_sep: "p \<in> set (Split s c) \<Longrightarrow> c \<notin> set p"
proof (induction s arbitrary: p)
  case Nil
  then show ?case by simp
next
  case (Cons x s)
  obtain h t where ht: "Split s c = h # t" using Split_nonempty[of s c] by (cases "Split s c") auto
  show ?case
  proof (cases "x = c")
    case True
    with Cons show ?thesis by auto
  next
    case False
    with Cons.prems ht have "p = x # h \<or> p \<in> set t" by auto
    then show ?thesis using Cons.IH ht False by auto
  qed
qed

lemma cleanStep_parts:
  "set (cleanStep r S p) \<subseteq> set S \<union> {p} \<union> {''..''}"
  by (auto simp: cleanStep.simps split: list.splits if_splits)

lemma foldl_parts:
  "set (foldl (cleanStep r) S ps) \<subseteq> set S \<union> set ps \<union> {''..''}"
proof (induction ps arbitrary: S)
  case Nil
  then show ?case by auto
next
  case (Cons p ps)
  have "set (foldl (cleanStep r) (cleanStep r S p) ps) \<subseteq> set (cleanStep r S p) \<union> set ps \<union> {''..''}"
    by (rule Cons.IH)
  with cleanStep_parts[of r S p] show ?case by auto
qed

lemma joinParts_Cons: "ps \<noteq> [] \<Longrightarrow> joinParts (p # ps) = p @ Separator # joinParts ps"
  by (cases ps) auto

lemma Split_joinParts:
  "ps \<noteq> [] \<Longrightarrow> \<forall>p\<in>set ps. Separator \<notin> set p \<Longrightarrow> Split (joinParts ps) Separator = ps"
proof (induction ps)
  case Nil
  then show ?case by simp
next
  case (Cons p ps)
  show ?case
  proof (cases "ps = []")
    case True
    with Cons.prems show ?thesis by (simp add: Split_no_sep)
  next
    case False
    with Cons have "Split (joinParts ps) Separator = ps" by simp
    with False Cons.prems show ?thesis
      by (simp add: joinParts_Cons Split_append Split_no_sep)
  qed
qed

lemma joinParts_Split: "joinParts (Split s Separator) = s"
proof (induction s)
  case Nil
  show ?case by simp
next
  case (Cons x s)
  obtain h t where ht: "Split s Separator = h # t"
    using Split_nonempty[of s Separator] by (cases "Split s Separator") auto
  show ?case
  proof (cases "x = Separator")
    case True
    with Cons ht show ?thesis by (simp add: joinParts_Cons)
  next
    case False
    with Cons ht show ?thesis by (cases t) auto
  qed
qed

lemma joinParts_empty: "joinParts ps = [] \<Longrightarrow> ps = [] \<or> ps = [[]]"
  by (induction ps rule: joinParts.induct) auto

lemma Clean_proper:
  assumes "properRel r"
  shows "Clean r = r"
proof -
  obtain h t where ht: "Split r Separator = h # t"
    using Split_nonempty[of r Separator] by (cases "Split r Separator") auto
  have hne: "h \<noteq> []" using assms ht by (auto simp: properRel_def validName_def)
  have rne: "r \<noteq> []" using ht hne by (cases r) auto
  have hsep: "Separator \<notin> set h" using Split_parts_no_sep[of h r Separator] ht by simp
  have "joinParts (Split r Separator) = r" by (rule joinParts_Split)
  then have "hd r = hd h" using ht hne by (cases t) (auto simp: hd_append)
  then have nr: "hd r \<noteq> Separator" using hne hsep by (cases h) auto
  have f: "foldl (cleanStep False) [] (Split r Separator) = rev (Split r Separator) @ []"
    using assms unfolding properRel_def by (rule foldl_valid)
  show ?thesis using rne nr f by (simp add: Clean_def Let_def joinParts_Split)
qed

lemma Clean_under:
  assumes "dir \<noteq> []" and "properRel r"
  shows "Clean (dir @ Separator # r) =
     (if hd dir = Separator then [Separator] else []) @
     joinParts (rev (foldl (cleanStep (hd dir = Separator)) [] (Split dir Separator)) @
                Split r Separator)"
proof -
  define rooted where "rooted = (hd dir = Separator)"
  define S where "S = foldl (cleanStep rooted) [] (Split dir Separator)"
  obtain h t where ht: "Split r Separator = h # t"
    using Split_nonempty[of r Separator] by (cases "Split r Separator") auto
  have hne: "h \<noteq> []" using assms(2) ht by (auto simp: properRel_def validName_def)
  have f: "foldl (cleanStep rooted) S (Split r Separator) = rev (Split r Separator) @ S"
    using assms(2) unfolding properRel_def by (rule foldl_valid)
  have sp: "Split (dir @ Separator # r) Separator = Split dir Separator @ Split r Separator"
    by (rule Split_append)
  have hd: "(hd (dir @ Separator # r) = Separator) = rooted"
    using assms(1) by (simp add: rooted_def)
  have full: "foldl (cleanStep rooted) [] (Split (dir @ Separator # r) Separator) =
      rev (Split r Separator) @ S"
    unfolding sp foldl_append S_def[symmetric] by (rule f)
  have ne: "joinParts (rev S @ Split r Separator) \<noteq> []"
  proof
    assume "joinParts (rev S @ Split r Separator) = []"
    then have "rev S @ Split r Separator = [] \<or> rev S @ Split r Separator = [[]]"
      by (rule joinParts_empty)
    then show False using ht hne by (auto simp: append_eq_Cons_conv)
  qed
  have "Clean (dir @ Separator # r) =
      (if rooted then [Separator] else []) @ joinParts (rev S @ Split r Separator)"
    unfolding Clean_def Let_def hd full using ne by simp
  then show ?thesis unfolding S_def rooted_def .
qed

lemma properRel_nonempty:
  assumes "properRel r"
  shows "r \<noteq> []"
proof
  assume "r = []"
  with assms have "validName []" by (simp add: properRel_def)
  then show False by (simp add: validName_def)
qed

lemma Join_inject:
  assumes "properRel a" and "properRel b" and "Join dir a = Join dir b"
  shows "a = b"
proof (cases "dir = []")
  case True
  have "a \<noteq> []" using assms(1) by (rule properRel_nonempty)
  moreover have "b \<noteq> []" using assms(2) by (rule properRel_nonempty)
  ultimately have "Join dir a = Clean a" and "Join dir b = Clean b"
    using True by (simp_all add: Join_def)
  with assms(3) have "Clean a = Clean b" by simp
  then show ?thesis using assms(1,2) by (simp add: Clean_proper)
next
  case False
  define X where "X = rev (foldl (cleanStep (hd dir = Separator)) [] (Split dir Separator))"
  have X: "\<forall>p\<in>set X. Separator \<notin> set p"
  proof
    fix p assume "p \<in> set X"
    then have "p \<in> set (foldl (cleanStep (hd dir = Separator)) [] (Split dir Separator))"
      unfolding X_def by simp
    with foldl_parts[of "hd dir = Separator" "[]" "Split dir Separator"]
    have "p \<in> set [] \<union> set (Split dir Separator) \<union> {''..''}" by (rule subsetD)
    then have "p = ''..'' \<or> p \<in> set (Split dir Separator)" by simp
    then show "Separator \<notin> set p"
    proof
      assume "p = ''..''"
      then show ?thesis by (simp add: Separator_def)
    next
      assume "p \<in> set (Split dir Separator)"
      then show ?thesis by (rule Split_parts_no_sep)
    qed
  qed
  have "Clean (dir @ Separator # a) = Clean (dir @ Separator # b)"
    using False assms(3) by (simp add: Join_def)
  then have eq: "joinParts (X @ Split a Separator) = joinParts (X @ Split b Separator)"
    unfolding Clean_under[OF False assms(1)] Clean_under[OF False assms(2)] X_def by simp
  have parts: "\<forall>p\<in>set (X @ Split r Separator). Separator \<notin> set p" for r
  proof
    fix p assume "p \<in> set (X @ Split r Separator)"
    then have "p \<in> set X \<or> p \<in> set (Split r Separator)" by simp
    then show "Separator \<notin> set p"
    proof
      assume "p \<in> set X"
      with X show ?thesis by simp
    next
      assume "p \<in> set (Split r Separator)"
      then show ?thesis by (rule Split_parts_no_sep)
    qed
  qed
  note pa = parts[of a] and pb = parts[of b]
  have na: "X @ Split a Separator \<noteq> []" and nb: "X @ Split b Separator \<noteq> []"
    using Split_nonempty by simp_all
  have A: "Split (joinParts (X @ Split a Separator)) Separator = X @ Split a Separator"
    using na pa by (rule Split_joinParts)
  have B: "Split (joinParts (X @ Split b Separator)) Separator = X @ Split b Separator"
    using nb pb by (rule Split_joinParts)
  have "X @ Split a Separator = Split (joinParts (X @ Split a Separator)) Separator"
    by (rule A[symmetric])
  also have "\<dots> = Split (joinParts (X @ Split b Separator)) Separator"
    by (simp only: eq)
  also have "\<dots> = X @ Split b Separator" by (rule B)
  finally have "Split a Separator = Split b Separator" by (simp only: same_append_eq)
  then have "joinParts (Split a Separator) = joinParts (Split b Separator)" by simp
  then show ?thesis by (simp add: joinParts_Split)
qed

lemma properRel_child:
  assumes "validName n" and "p = ''.'' \<or> properRel p"
  shows "properRel (childPath p n)"
proof (cases "p = ''.''")
  case True
  have "Split n Separator = [n]" using assms(1) by (simp add: validName_def Split_no_sep)
  with True assms(1) show ?thesis by (simp add: childPath_def properRel_def)
next
  case False
  with assms(2) have pp: "properRel p" by simp
  have "Split n Separator = [n]" using assms(1) by (simp add: validName_def Split_no_sep)
  then have "Split (childPath p n) Separator = Split p Separator @ [n]"
    using False by (simp add: childPath_def Split_append)
  with pp assms(1) show ?thesis by (simp add: properRel_def)
qed

lemma pushVisit_proper:
  assumes "c = ''.'' \<or> properRel c" and "\<forall>f\<in>set (files st). properRel (relPath f)"
  shows "\<forall>f\<in>set (files (snd (pushVisit cfg rd c fi err st))). properRel (relPath f)"
proof (cases "c = ''.''")
  case True
  then have "files (snd (pushVisit cfg rd c fi err st)) = files st"
    by (simp add: pushVisit_def)
  with assms(2) show ?thesis by simp
next
  case False
  with assms(1) have "properRel c" by simp
  with assms(2) show ?thesis by (simp add: pushVisit_def)
qed

lemma walk_proper:
  "fn = pushVisit cfg rd \<Longrightarrow> validTree t \<Longrightarrow> c = ''.'' \<or> properRel c \<Longrightarrow>
     \<forall>f\<in>set (files st). properRel (relPath f) \<Longrightarrow>
     \<forall>f\<in>set (files (snd (walk fn c t st))). properRel (relPath f)"
  "fn = pushVisit cfg rd \<Longrightarrow> validEntries es \<Longrightarrow> c = ''.'' \<or> properRel c \<Longrightarrow>
     \<forall>f\<in>set (files st). properRel (relPath f) \<Longrightarrow>
     \<forall>f\<in>set (files (snd (walkEntries fn c es st))). properRel (relPath f)"
proof (induction fn c t st and fn c es st rule: walk_walkEntries.induct)
  case (1 fn path n sz mt st)
  from pushVisit_proper[OF "1.prems"(3,4)] "1.prems"(1) show ?case by simp
next
  case (2 fn path n st)
  from pushVisit_proper[OF "2.prems"(3,4)] "2.prems"(1) show ?case by simp
next
  case (3 fn path n listed entries st)
  let ?err = "if listed then None else Some (ReadError path)"
  obtain err1 st1 where v: "fn path (nodeInfo (Dir n listed entries)) ?err st = (err1, st1)"
    by fastforce
  have p1: "\<forall>f\<in>set (files st1). properRel (relPath f)"
    using pushVisit_proper[OF "3.prems"(3,4), of cfg rd "nodeInfo (Dir n listed entries)" ?err]
      v "3.prems"(1) by simp
  show ?case
  proof (cases "?err \<noteq> None \<or> err1 \<noteq> None")
    case True
    then have "snd (walk fn path (Dir n listed entries) st) = st1" using v by auto
    with p1 show ?thesis by simp
  next
    case False
    then have w: "walk fn path (Dir n listed entries) st = walkEntries fn path entries st1"
      using v by auto
    have ve: "validEntries entries" using "3.prems"(2) by simp
    from "3.IH"[OF refl v[symmetric] False "3.prems"(1) ve "3.prems"(3) p1]
    show ?thesis unfolding w .
  qed
next
  case (4 fn path st)
  then show ?case by simp
next
  case (5 fn path entry entries st)
  let ?c = "childPath path (nodeName entry)"
  have vn: "validName (nodeName entry)" and vt: "validTree entry" and ve: "validEntries entries"
    using "5.prems"(2) by auto
  have pc: "?c = ''.'' \<or> properRel ?c"
    using properRel_child[OF vn "5.prems"(3)] by simp
  show ?case
  proof (cases "lstatFails entry")
    case True
    then obtain n where "entry = Gone n" by (cases entry) auto
    with "5.prems"(1,4) show ?thesis by (simp add: pushVisit_error)
  next
    case False
    obtain err st1 where w: "walk fn ?c entry st = (err, st1)" by fastforce
    from "5.IH"(2)[OF False "5.prems"(1) vt pc "5.prems"(4)] w
    have p1: "\<forall>f\<in>set (files st1). properRel (relPath f)" by simp
    show ?thesis
    proof (cases "err \<noteq> None \<and> (\<not> IsDir (nodeInfo entry) \<or> err \<noteq> Some SkipDir)")
      case True
      then have "snd (walkEntries fn path (entry # entries) st) = st1" using False w by simp
      with p1 show ?thesis by simp
    next
      case cont: False
      then have s: "snd (walkEntries fn path (entry # entries) st) =
          snd (walkEntries fn path entries st1)" using False w by auto
      from "5.IH"(3)[OF False w[symmetric] cont "5.prems"(1) ve "5.prems"(3) p1]
      show ?thesis unfolding s .
    qed
  qed
qed

lemma scanLocal_distinct:
  assumes "validTree localRoot"
  shows "distinct (map remotePath (files (snd (scanLocal cfg remoteDir localRoot))))"
proof -
  let ?init = "\<lparr>files = [], ignored = 0, mkdirs = [remoteDir]\<rparr>"
  have sc: "snd (scanLocal cfg remoteDir localRoot) =
      snd (walk (pushVisit cfg remoteDir) ''.'' localRoot ?init)"
    by (simp add: scanLocal_def Walk_def split: prod.splits)
  from walk_adds(1)[OF refl assms, where cfg=cfg and rd=remoteDir and st="?init" and c="''.''"]
  obtain new where new: "files (snd (walk (pushVisit cfg remoteDir) ''.'' localRoot ?init)) = new"
    and d: "distinct (map relPath new)"
    and r: "\<forall>f\<in>set new. remotePath f = ToSlash (Join remoteDir (relPath f))"
    by (auto simp: addsFiles_def)
  have "\<forall>f\<in>set (files (snd (walk (pushVisit cfg remoteDir) ''.'' localRoot ?init))).
      properRel (relPath f)"
    by (rule walk_proper(1)[OF refl assms]) simp_all
  then have proper: "\<forall>f\<in>set new. properRel (relPath f)" by (simp only: new)
  have eq: "map remotePath new = map (\<lambda>r. ToSlash (Join remoteDir r)) (map relPath new)"
    using r by simp
  have "distinct (map (\<lambda>r. ToSlash (Join remoteDir r)) (map relPath new))"
  proof (subst distinct_map, intro conjI)
    show "distinct (map relPath new)" by (rule d)
    show "inj_on (\<lambda>r. ToSlash (Join remoteDir r)) (set (map relPath new))"
    proof (rule inj_onI)
      fix x y
      assume x: "x \<in> set (map relPath new)" and y: "y \<in> set (map relPath new)"
        and e: "ToSlash (Join remoteDir x) = ToSlash (Join remoteDir y)"
      from x proper have px: "properRel x" by auto
      from y proper have py: "properRel y" by auto
      from e have "Join remoteDir x = Join remoteDir y" by (simp add: ToSlash_def)
      with px py show "x = y" by (rule Join_inject)
    qed
  qed
  then have "distinct (map remotePath new)" by (simp only: eq)
  then show ?thesis by (simp only: sc new)
qed

text \<open>
  Claim C6, as amended. Let a first push of a tree that a file system can hold return
  no error, and let every upload of that push (the files the change detection did not
  find up to date on the remote side) copy as many bytes as the size the scan recorded
  for the file, and leave the remote file with a modification time later than the local
  file's time less one second. Then a second push of the same tree to the same remote
  folder, from the remote files as the first push left them, reports no transfer, and
  as many skipped files as checked ones: as many as the first push checked. The
  condition on the bytes holds for a regular file that does not change during the push;
  it fails for a symbolic link, whose recorded size is that of the link while the upload
  copies its target.
\<close>

theorem second_push_transfers_nothing:
  assumes "expandTilde e1 (RemoteFolder cfg) = Inr remoteDir"
      and "remoteHome e2 = remoteHome e1"
      and "fst (SyncFiles cfg e1 localRoot remote0) = Inr r1"
      and "validTree localRoot"
      and "\<forall>f\<in>set (files (snd (scanLocal cfg remoteDir localRoot))).
             needsUpdate (info f) (remote0 (remotePath f)) \<longrightarrow>
               bytesCopied e1 (localPath f) = Size (info f) \<and>
               ModTime (info f) - Second < writeTime e1 (remotePath f)"
  shows "\<exists>r2. fst (SyncFiles cfg e2 localRoot (fst (snd (SyncFiles cfg e1 localRoot remote0)))) = Inr r2 \<and>
              transferred r2 = 0 \<and> skipped r2 = checked r2 \<and> checked r2 = checked r1"
proof -
  obtain remote1 dirs1 where first: "SyncFiles cfg e1 localRoot remote0 = (Inr r1, remote1, dirs1)"
    using assms(3) by (cases "SyncFiles cfg e1 localRoot remote0") auto
  obtain n listed entries where root: "localRoot = Dir n listed entries"
    using first by (cases localRoot) (auto simp: SyncFiles_def)
  obtain err st where sc: "scanLocal cfg remoteDir localRoot = (err, st)" by fastforce
  have tilde2: "expandTilde e2 (RemoteFolder cfg) = Inr remoteDir"
  proof -
    have "expandTilde e2 (RemoteFolder cfg) = expandTilde e1 (RemoteFolder cfg)"
      using assms(2) by (simp add: expandTilde_def)
    with assms(1) show ?thesis by simp
  qed
  have noerr: "err = None"
    using assms(1) first root sc by (cases err) (auto simp: SyncFiles_def)
  have "\<exists>r2. fst (SyncFiles cfg e2 localRoot remote1) = Inr r2 \<and>
              transferred r2 = 0 \<and> skipped r2 = checked r2 \<and> checked r2 = checked r1"
  proof (cases "files st = []")
    case True
    then have "fst (SyncFiles cfg e2 localRoot remote1) =
        Inr \<lparr>checked = 0, transferred = 0, skipped = 0, ignoredCount = ignored st\<rparr>"
      using tilde2 root sc noerr by (simp add: SyncFiles_def)
    moreover have "checked r1 = 0"
      using True assms(1) first root sc noerr by (auto simp: SyncFiles_def)
    ultimately show ?thesis by simp
  next
    case False
    obtain res rem where l1: "pushLoop e1 (files st) remote0 0 0 = (res, rem)" by fastforce
    from assms(1) first root sc noerr False l1 obtain c where
      res: "res = Inr c" and rem: "rem = remote1" and chk: "checked r1 = length (files st)"
      by (cases res) (auto simp: SyncFiles_def split: prod.splits)
    have cur: "\<forall>f\<in>set (files st). \<not> needsUpdate (info f) (remote1 (remotePath f))"
      using pushLoop_first[of e1 "files st" remote0 0 0 c remote1] l1 res rem
        scanLocal_distinct[OF assms(4), of cfg remoteDir] assms(5) sc
      by simp
    have "pushLoop e2 (files st) remote1 0 0 = (Inr (0 + length (files st), 0), remote1)"
      using cur by (rule pushLoop_second)
    then have "fst (SyncFiles cfg e2 localRoot remote1) =
        Inr \<lparr>checked = length (files st), transferred = 0, skipped = length (files st),
             ignoredCount = ignored st\<rparr>"
      using tilde2 root sc noerr False by (simp add: SyncFiles_def)
    with chk show ?thesis by simp
  qed
  then show ?thesis using first by simp
qed

theorem second_push_transfers_nothing_witness:
  "\<exists>r2. fst (SyncFiles exampleConfig (exampleEnv 0) exampleTree
             (fst (snd (SyncFiles exampleConfig (exampleEnv 6000000000) exampleTree Map.empty)))) = Inr r2 \<and>
        transferred r2 = 0 \<and> skipped r2 = checked r2 \<and>
        checked r2 = checked \<lparr>checked = 1, transferred = 1, skipped = 0, ignoredCount = 2\<rparr>"
proof -
  have h1: "expandTilde (exampleEnv 6000000000) (RemoteFolder exampleConfig) = Inr ''/home/bob/app''"
    by code_simp
  have h2: "remoteHome (exampleEnv 0) = remoteHome (exampleEnv 6000000000)"
    by (simp add: exampleEnv_def)
  have h3: "fst (SyncFiles exampleConfig (exampleEnv 6000000000) exampleTree Map.empty) =
      Inr \<lparr>checked = 1, transferred = 1, skipped = 0, ignoredCount = 2\<rparr>"
    by code_simp
  have h4: "validTree exampleTree"
    by (simp add: exampleTree_def validName_def Separator_def)
  have h5: "\<forall>f\<in>set (files (snd (scanLocal exampleConfig ''/home/bob/app'' exampleTree))).
      needsUpdate (info f) (Map.empty (remotePath f)) \<longrightarrow>
        bytesCopied (exampleEnv 6000000000) (localPath f) = Size (info f) \<and>
        ModTime (info f) - Second < writeTime (exampleEnv 6000000000) (remotePath f)"
    by code_simp
  show ?thesis by (rule second_push_transfers_nothing[OF h1 h2 h3 h4 h5])
qed

text \<open>The claim as it was stated fails where the remote clock is behind: \<open>uploadFile\<close>
  leaves the modification time to the remote endpoint, which stamps \<open>a.txt\<close> with time
  0, more than a second before the local file's time, and the second push uploads the
  file again.\<close>

theorem second_push_clock_counterexample:
  "fst (SyncFiles exampleConfig (exampleEnv 0) exampleTree Map.empty) =
     Inr \<lparr>checked = 1, transferred = 1, skipped = 0, ignoredCount = 2\<rparr> \<and>
   fst (SyncFiles exampleConfig (exampleEnv 0) exampleTree
         (fst (snd (SyncFiles exampleConfig (exampleEnv 0) exampleTree Map.empty)))) =
     Inr \<lparr>checked = 1, transferred = 1, skipped = 0, ignoredCount = 2\<rparr>"
  by code_simp

text \<open>It fails as well for a symbolic link, whatever the clocks: the scan records the
  size \<open>lstat\<close> reports for \<open>a.txt\<close>, 10, the upload copies the 42 bytes that opening the
  path yields, the sizes differ on the second push and the file is uploaded again.\<close>

lemma second_push_link_example:
  "fst (SyncFiles exampleConfig ((exampleEnv 6000000000)\<lparr>bytesCopied := (\<lambda>p. 42)\<rparr>) exampleTree Map.empty) =
     Inr \<lparr>checked = 1, transferred = 1, skipped = 0, ignoredCount = 2\<rparr> \<and>
   fst (SyncFiles exampleConfig ((exampleEnv 6000000000)\<lparr>bytesCopied := (\<lambda>p. 42)\<rparr>) exampleTree
         (fst (snd (SyncFiles exampleConfig ((exampleEnv 6000000000)\<lparr>bytesCopied := (\<lambda>p. 42)\<rparr>)
            exampleTree Map.empty)))) =
     Inr \<lparr>checked = 1, transferred = 1, skipped = 0, ignoredCount = 2\<rparr>"
  by code_simp

end
